theory Spec2Isabelle
  imports Main "HOL-Library.Multiset"
begin

section \<open>JavaScript values\<close>

text \<open>
  The extension keeps its history in \<open>chrome.storage.local\<close> and reads every field
  dynamically (\<open>entry?.fetched_at\<close>, \<open>Number(sketch?.id)\<close>, \<open>sketch?.views || 0\<close>).
  The fields are therefore modelled as JavaScript primitives, not as the types the data
  is expected to have. A field that holds an object or an array (other than \<open>sketches\<close>)
  is left out.

  Numbers are the integers together with \<open>NaN\<close> and the two infinities. View counts,
  sketch ids and millisecond timestamps are integers far below \<open>2^53\<close>, where the
  arithmetic of doubles is exact; fractions and negative zero are left out.
\<close>

datatype jsnum = JNaN | JNegInf | JFin int | JPosInf

datatype jsval = JUndefined | JNull | JBool bool | JNum jsnum | JStr string

text \<open>\<open>Number.isFinite\<close> and \<open>Number.isNaN\<close> on a value that is already a number.\<close>

fun isFinite :: "jsnum \<Rightarrow> bool" where
  "isFinite (JFin n) = True"
| "isFinite _ = False"

definition isNaN :: "jsnum \<Rightarrow> bool" where
  "isNaN n = (n = JNaN)"

text \<open>Addition, negation, subtraction and \<open>a > b\<close> on numbers.\<close>

fun js_add :: "jsnum \<Rightarrow> jsnum \<Rightarrow> jsnum" where
  "js_add JNaN _ = JNaN"
| "js_add _ JNaN = JNaN"
| "js_add (JFin a) (JFin b) = JFin (a + b)"
| "js_add JPosInf JNegInf = JNaN"
| "js_add JNegInf JPosInf = JNaN"
| "js_add JPosInf _ = JPosInf"
| "js_add _ JPosInf = JPosInf"
| "js_add JNegInf _ = JNegInf"
| "js_add _ JNegInf = JNegInf"

fun js_neg :: "jsnum \<Rightarrow> jsnum" where
  "js_neg JNaN = JNaN"
| "js_neg JNegInf = JPosInf"
| "js_neg (JFin a) = JFin (- a)"
| "js_neg JPosInf = JNegInf"

definition js_sub :: "jsnum \<Rightarrow> jsnum \<Rightarrow> jsnum" where
  "js_sub a b = js_add a (js_neg b)"

fun js_gt :: "jsnum \<Rightarrow> jsnum \<Rightarrow> bool" where
  "js_gt JNaN _ = False"
| "js_gt _ JNaN = False"
| "js_gt (JFin a) (JFin b) = (b < a)"
| "js_gt JPosInf b = (b \<noteq> JPosInf)"
| "js_gt a JNegInf = (a \<noteq> JNegInf)"
| "js_gt _ _ = False"

text \<open>ToBoolean, and \<open>a || b\<close>, which yields \<open>a\<close> when it is truthy and \<open>b\<close> otherwise.\<close>

fun truthy :: "jsval \<Rightarrow> bool" where
  "truthy JUndefined = False"
| "truthy JNull = False"
| "truthy (JBool b) = b"
| "truthy (JNum n) = (n \<noteq> JNaN \<and> n \<noteq> JFin 0)"
| "truthy (JStr s) = (s \<noteq> [])"

definition js_or :: "jsval \<Rightarrow> jsval \<Rightarrow> jsval" where
  "js_or a b = (if truthy a then a else b)"

text \<open>
  \<open>Number(v)\<close>. What \<open>Number\<close> makes of a string is the language's StringToNumber; it
  is a parameter \<open>s2n\<close> of every function that coerces, so nothing is assumed about it.
\<close>

fun Number :: "(string \<Rightarrow> jsnum) \<Rightarrow> jsval \<Rightarrow> jsnum" where
  "Number s2n JUndefined = JNaN"
| "Number s2n JNull = JFin 0"
| "Number s2n (JBool b) = JFin (if b then 1 else 0)"
| "Number s2n (JNum n) = n"
| "Number s2n (JStr s) = s2n s"

text \<open>
  \<open>String(v)\<close>, with the decimal notation of an integer, which is what JavaScript prints
  for an integer below \<open>10^21\<close> in absolute value.
\<close>

fun digit_char :: "nat \<Rightarrow> char" where
  "digit_char n = char_of (48 + n)"

fun decimal :: "nat \<Rightarrow> string" where
  "decimal n = (if n < 10 then [digit_char n] else decimal (n div 10) @ [digit_char (n mod 10)])"

declare decimal.simps [simp del]

definition int_to_string :: "int \<Rightarrow> string" where
  "int_to_string i = (if i < 0 then CHR ''-'' # decimal (nat (- i)) else decimal (nat i))"

fun num_to_string :: "jsnum \<Rightarrow> string" where
  "num_to_string JNaN = ''NaN''"
| "num_to_string JNegInf = ''-Infinity''"
| "num_to_string (JFin i) = int_to_string i"
| "num_to_string JPosInf = ''Infinity''"

fun String :: "jsval \<Rightarrow> string" where
  "String JUndefined = ''undefined''"
| "String JNull = ''null''"
| "String (JBool b) = (if b then ''true'' else ''false'')"
| "String (JNum n) = num_to_string n"
| "String (JStr s) = s"

text \<open>\<open>a === b\<close>: equal primitives of one type, except that \<open>NaN\<close> equals nothing.\<close>

fun strict_eq :: "jsval \<Rightarrow> jsval \<Rightarrow> bool" where
  "strict_eq (JNum a) (JNum b) = (a \<noteq> JNaN \<and> a = b)"
| "strict_eq a b = (a = b)"

text \<open>
  \<open>Date.parse(v)\<close> converts its argument to a string and yields the milliseconds since
  the epoch, or \<open>NaN\<close> for a string that is no date. The parser of strings is the
  parameter \<open>dp\<close> (\<open>None\<close> for \<open>NaN\<close>).
\<close>

definition Date_parse :: "(string \<Rightarrow> int option) \<Rightarrow> jsval \<Rightarrow> jsnum" where
  "Date_parse dp v = (case dp (String v) of None \<Rightarrow> JNaN | Some t \<Rightarrow> JFin t)"

section \<open>Array operations\<close>

text \<open>\<open>Array.prototype.findIndex\<close>: the first index whose element satisfies the predicate, or \<open>-1\<close>.\<close>

fun findIndex :: "('a \<Rightarrow> bool) \<Rightarrow> 'a list \<Rightarrow> int" where
  "findIndex p [] = - 1"
| "findIndex p (x # xs) =
     (if p x then 0 else (let r = findIndex p xs in if r < 0 then - 1 else r + 1))"

text \<open>
  \<open>Array.prototype.sort(comparator)\<close>. The language's SortCompare turns a comparator
  result of \<open>NaN\<close> into \<open>+0\<close>, and the sort is stable. It is modelled as a stable
  insertion sort: an element stays in front of a later one unless the comparator puts it
  strictly after. For a comparator that orders the elements consistently every stable sort
  returns this list; for an inconsistent one the language leaves the order to the engine.
  Where a statement below gives the order that an inconsistent comparator leaves, the
  comparator of \<open>appendSnapshot\<close> on a timestamp that does not parse, the array has two
  entries: the single comparison is a tie and every engine leaves the two in place.
\<close>

definition SortCompare :: "('a \<Rightarrow> 'a \<Rightarrow> jsnum) \<Rightarrow> 'a \<Rightarrow> 'a \<Rightarrow> jsnum" where
  "SortCompare comparator x y = (let v = comparator x y in if v = JNaN then JFin 0 else v)"

fun sort_insert :: "('a \<Rightarrow> 'a \<Rightarrow> jsnum) \<Rightarrow> 'a \<Rightarrow> 'a list \<Rightarrow> 'a list" where
  "sort_insert comparator x [] = [x]"
| "sort_insert comparator x (y # ys) =
     (if js_gt (SortCompare comparator x y) (JFin 0)
      then y # sort_insert comparator x ys
      else x # y # ys)"

definition js_sort :: "('a \<Rightarrow> 'a \<Rightarrow> jsnum) \<Rightarrow> 'a list \<Rightarrow> 'a list" where
  "js_sort comparator xs = foldr (sort_insert comparator) xs []"

section \<open>Snapshots and the stored history\<close>

text \<open>
  A sketch record and a snapshot, as \<open>captureCurrentPage\<close> builds them. Every field is
  read dynamically. A sketch that is \<open>null\<close> behaves as one whose fields are all
  \<open>undefined\<close>, since each of its fields is read as \<open>sketch?.field\<close>. \<open>sketches\<close> is
  \<open>None\<close> when the field is no array.
\<close>

record sketch =
  sk_id :: jsval
  sk_title :: jsval
  sk_views :: jsval
  sk_url :: jsval

record snapshot =
  date :: jsval
  fetched_at :: jsval
  page_url :: jsval
  sketches :: "sketch list option"

text \<open>
  An entry of the stored array is a snapshot, or \<open>None\<close> for an entry that is \<open>null\<close>;
  \<open>entry?.field\<close> is \<open>undefined\<close> on such an entry. (An array read from storage holds
  no \<open>undefined\<close>, which \<open>sort\<close> would move to the end without comparing it.)
\<close>

type_synonym entry = "snapshot option"

definition opt_fetched_at :: "entry \<Rightarrow> jsval" where
  "opt_fetched_at e = (case e of None \<Rightarrow> JUndefined | Some s \<Rightarrow> fetched_at s)"

definition opt_date :: "entry \<Rightarrow> jsval" where
  "opt_date e = (case e of None \<Rightarrow> JUndefined | Some s \<Rightarrow> date s)"

definition opt_sketches :: "entry \<Rightarrow> sketch list" where
  "opt_sketches e = (case e of None \<Rightarrow> [] | Some s \<Rightarrow> (case sketches s of None \<Rightarrow> [] | Some ss \<Rightarrow> ss))"

subsection \<open>popup.js: appendSnapshot\<close>

text \<open>
  \<open>left?.fetched_at || left?.date || ""\<close>, the text whose parse is the timestamp of an entry.
\<close>

definition effective_text :: "entry \<Rightarrow> jsval" where
  "effective_text e = js_or (js_or (opt_fetched_at e) (opt_date e)) (JStr [])"

definition appendSnapshot_compare :: "(string \<Rightarrow> int option) \<Rightarrow> entry \<Rightarrow> entry \<Rightarrow> jsnum" where
  "appendSnapshot_compare dp left right =
     (let leftTs = Date_parse dp (effective_text left);
          rightTs = Date_parse dp (effective_text right)
      in js_sub leftTs rightTs)"

text \<open>The function mutates \<open>history\<close> in place; the model returns the array it leaves.\<close>

definition appendSnapshot :: "(string \<Rightarrow> int option) \<Rightarrow> entry list \<Rightarrow> snapshot \<Rightarrow> entry list" where
  "appendSnapshot dp history snapshot =
     (let duplicateIndex = findIndex (\<lambda>entry. strict_eq (opt_fetched_at entry) (fetched_at snapshot)) history
      in if duplicateIndex \<ge> 0
         then history[nat duplicateIndex := Some snapshot]
         else js_sort (appendSnapshot_compare dp) (history @ [Some snapshot]))"

text \<open>A history out of a sequence of merges, starting from the empty array.\<close>

definition merge_all :: "(string \<Rightarrow> int option) \<Rightarrow> snapshot list \<Rightarrow> entry list" where
  "merge_all dp snaps = foldl (appendSnapshot dp) [] snaps"

subsection \<open>options.js: snapshotTime and snapshotLabel\<close>

definition snapshotTime :: "(string \<Rightarrow> int option) \<Rightarrow> entry \<Rightarrow> jsnum" where
  "snapshotTime dp snapshot =
     (let ts = Date_parse dp (effective_text snapshot) in if isNaN ts then JFin 0 else ts)"

definition snapshotLabel :: "entry \<Rightarrow> nat \<Rightarrow> string" where
  "snapshotLabel snapshot index =
     (let base = js_or (js_or (opt_fetched_at snapshot) (opt_date snapshot))
                       (JStr (''snapshot-'' @ decimal (index + 1)))
      in String base)"

subsection \<open>Maps\<close>

text \<open>
  A \<open>Map\<close> keeps its keys in insertion order, and \<open>set\<close> on a key it has leaves the key
  where it is. It is an association list without repeated keys.
\<close>

fun map_set :: "'k \<Rightarrow> 'v \<Rightarrow> ('k \<times> 'v) list \<Rightarrow> ('k \<times> 'v) list" where
  "map_set k v [] = [(k, v)]"
| "map_set k v ((k', v') # m) = (if k' = k then (k, v) # m else (k', v') # map_set k v m)"

definition map_get :: "('k \<times> 'v) list \<Rightarrow> 'k \<Rightarrow> 'v option" where
  "map_get m k = map_of m k"

definition map_has :: "('k \<times> 'v) list \<Rightarrow> 'k \<Rightarrow> bool" where
  "map_has m k = (map_of m k \<noteq> None)"

text \<open>
  \<open>Number(v || 0)\<close> for \<open>v\<close> a number or \<open>undefined\<close>, as both files read a stored view
  count: \<open>undefined\<close>, \<open>NaN\<close> and \<open>0\<close> are falsy and give \<open>0\<close>.
\<close>

definition views_or_zero :: "jsnum option \<Rightarrow> jsnum" where
  "views_or_zero v =
     (case v of None \<Rightarrow> JFin 0
      | Some n \<Rightarrow> (case js_or (JNum n) (JNum (JFin 0)) of JNum r \<Rightarrow> r | _ \<Rightarrow> JFin 0))"

text \<open>\<open>Number(sketch?.views || 0)\<close> on a stored sketch record.\<close>

definition sketch_views :: "(string \<Rightarrow> jsnum) \<Rightarrow> sketch \<Rightarrow> jsnum" where
  "sketch_views s2n sketch = Number s2n (js_or (sk_views sketch) (JNum (JFin 0)))"

subsection \<open>options.js: buildState\<close>

record point =
  timeLabel :: string
  p_date :: jsval
  p_views :: jsnum

text \<open>An entry of \<open>bySketch\<close>: the id, title and url of a sketch, and its views by label.\<close>

record sketch_acc =
  a_id :: int
  a_title :: string
  a_url :: string
  a_points :: "(string \<times> jsnum) list"

record series =
  s_id :: int
  s_title :: string
  s_url :: string
  points :: "point list"
  latestViews :: jsnum

record build_state =
  normalizedHistory :: "entry list"
  timeLabels :: "string list"
  series_of :: "series list"

datatype error = TypeError

text \<open>The body of the loop over the sketches of one snapshot.\<close>

definition add_sketch :: "(string \<Rightarrow> jsnum) \<Rightarrow> string \<Rightarrow> (int \<times> sketch_acc) list \<Rightarrow> sketch \<Rightarrow> (int \<times> sketch_acc) list" where
  "add_sketch s2n snapshotLabelKey bySketch sketch =
     (case Number s2n (sk_id sketch) of
        JFin sketchId \<Rightarrow>
          (let bySketch1 =
                 (if \<not> map_has bySketch sketchId
                  then map_set sketchId
                         \<lparr> a_id = sketchId,
                           a_title = String (js_or (sk_title sketch) (JStr (''Sketch '' @ int_to_string sketchId))),
                           a_url = String (js_or (sk_url sketch) (JStr [])),
                           a_points = [] \<rparr> bySketch
                  else bySketch)
           in (case map_get bySketch1 sketchId of
                 Some entry \<Rightarrow>
                   map_set sketchId
                     (entry\<lparr> a_points := map_set snapshotLabelKey (sketch_views s2n sketch) (a_points entry) \<rparr>)
                     bySketch1
               | None \<Rightarrow> bySketch1))
      | _ \<Rightarrow> bySketch)"

text \<open>
  The loop over the snapshots. \<open>snapshot.sketches\<close> is read without \<open>?.\<close>, so an entry
  that is \<open>null\<close> raises a TypeError.
\<close>

fun collect_sketches :: "(string \<Rightarrow> jsnum) \<Rightarrow> entry list \<Rightarrow> nat \<Rightarrow> (int \<times> sketch_acc) list \<Rightarrow> error + (int \<times> sketch_acc) list" where
  "collect_sketches s2n [] index bySketch = Inr bySketch"
| "collect_sketches s2n (None # rest) index bySketch = Inl TypeError"
| "collect_sketches s2n (Some snapshot # rest) index bySketch =
     (let snapshotLabelKey = snapshotLabel (Some snapshot) index;
          sketches = (case sketches snapshot of Some ss \<Rightarrow> ss | None \<Rightarrow> [])
      in collect_sketches s2n rest (index + 1) (foldl (add_sketch s2n snapshotLabelKey) bySketch sketches))"

text \<open>\<open>new Map(pairs)\<close> sets the pairs in order.\<close>

definition map_from_pairs :: "('k \<times> 'v) list \<Rightarrow> ('k \<times> 'v) list" where
  "map_from_pairs pairs = foldl (\<lambda>m (k, v). map_set k v m) [] pairs"

definition index_map :: "('a \<Rightarrow> nat \<Rightarrow> 'b) \<Rightarrow> 'a list \<Rightarrow> 'b list" where
  "index_map f xs = map (\<lambda>(x, i). f x i) (zip xs [0 ..< length xs])"

definition epoch_iso :: string where
  "epoch_iso = ''1970-01-01T00:00:00.000Z''"

definition make_series :: "string list \<Rightarrow> (string \<times> jsval) list \<Rightarrow> sketch_acc \<Rightarrow> series" where
  "make_series labels snapshotDateByLabel acc =
     (let pts = map (\<lambda>label.
                  \<lparr> timeLabel = label,
                    p_date = js_or (case map_get snapshotDateByLabel label of Some d \<Rightarrow> d | None \<Rightarrow> JUndefined)
                                   (JStr epoch_iso),
                    p_views = views_or_zero (map_get (a_points acc) label) \<rparr>) labels;
          latest = (if pts \<noteq> [] then p_views (last pts) else JFin 0)
      in \<lparr> s_id = a_id acc, s_title = a_title acc, s_url = a_url acc, points = pts, latestViews = latest \<rparr>)"

definition has_views :: "series \<Rightarrow> bool" where
  "has_views item = list_ex (\<lambda>point. js_gt (p_views point) (JFin 0)) (points item)"

text \<open>\<open>Array.from(bySketch.values()).map(...)\<close>: one series for every sketch seen, before the filter.\<close>

definition candidate_series :: "string list \<Rightarrow> (string \<times> jsval) list \<Rightarrow> (int \<times> sketch_acc) list \<Rightarrow> series list" where
  "candidate_series labels snapshotDateByLabel bySketch =
     map (make_series labels snapshotDateByLabel) (map snd bySketch)"

text \<open>
  \<open>buildState\<close> writes \<open>normalizedHistory\<close>, \<open>timeLabels\<close> and \<open>series\<close> into the module's
  state; the model returns the three, or the error raised (by then the first two are
  written; the model returns the error alone). The selection of the filter drop-down,
  which \<open>populateFilterOptions\<close> refreshes, is left out.
\<close>

definition buildState :: "(string \<Rightarrow> int option) \<Rightarrow> (string \<Rightarrow> jsnum) \<Rightarrow> entry list \<Rightarrow> error + build_state" where
  "buildState dp s2n history =
     (let normalized = js_sort (\<lambda>a b. js_sub (snapshotTime dp a) (snapshotTime dp b)) history;
          labels = index_map snapshotLabel normalized
      in case collect_sketches s2n normalized 0 [] of
           Inl e \<Rightarrow> Inl e
         | Inr bySketch \<Rightarrow>
             (let snapshotDateByLabel =
                    map_from_pairs (index_map (\<lambda>snapshot index.
                      (snapshotLabel snapshot index, js_or (opt_fetched_at snapshot) (opt_date snapshot))) normalized);
                  built = js_sort (\<lambda>a b. js_sub (latestViews b) (latestViews a))
                            (filter has_views (candidate_series labels snapshotDateByLabel bySketch))
              in Inr \<lparr> normalizedHistory = normalized, timeLabels = labels, series_of = built \<rparr>))"

subsection \<open>Increases of single sketches\<close>

record increase =
  inc_id :: int
  inc_title :: string
  inc_url :: string
  delta :: jsnum

text \<open>popup.js: from the two latest stored snapshots.\<close>

definition previous_views :: "(string \<Rightarrow> jsnum) \<Rightarrow> sketch list \<Rightarrow> (int \<times> jsnum) list" where
  "previous_views s2n previousSketches =
     foldl (\<lambda>previousById sketch.
              (case Number s2n (sk_id sketch) of
                 JFin sketchId \<Rightarrow> map_set sketchId (sketch_views s2n sketch) previousById
               | _ \<Rightarrow> previousById)) [] previousSketches"

definition computeSketchIncreasesFromSnapshots :: "(string \<Rightarrow> jsnum) \<Rightarrow> entry \<Rightarrow> entry \<Rightarrow> increase list" where
  "computeSketchIncreasesFromSnapshots s2n previousSnapshot latestSnapshot =
     (let previousById = previous_views s2n (opt_sketches previousSnapshot);
          increases =
            foldl (\<lambda>increases sketch.
                     (case Number s2n (sk_id sketch) of
                        JFin sketchId \<Rightarrow>
                          (let latestViews = sketch_views s2n sketch;
                               previousViews = views_or_zero (map_get previousById sketchId);
                               delta = js_sub latestViews previousViews
                           in if js_gt delta (JFin 0)
                              then increases @
                                   [\<lparr> inc_id = sketchId,
                                      inc_title = String (js_or (sk_title sketch) (JStr (''Sketch '' @ int_to_string sketchId))),
                                      inc_url = String (js_or (sk_url sketch) (JStr [])),
                                      delta = delta \<rparr>]
                              else increases)
                      | _ \<Rightarrow> increases)) [] (opt_sketches latestSnapshot)
      in js_sort (\<lambda>left right. js_sub (delta right) (delta left)) increases)"

text \<open>options.js: from the last two points of every series.\<close>

definition point_views_at :: "point list \<Rightarrow> int \<Rightarrow> jsnum option" where
  "point_views_at pts i = (if 0 \<le> i \<and> i < int (length pts) then Some (p_views (pts ! nat i)) else None)"

definition computeLatestSketchIncreasesFromSeries :: "series list \<Rightarrow> increase list" where
  "computeLatestSketchIncreasesFromSeries lines =
     (let increases =
            foldl (\<lambda>increases line.
                     if length (points line) < 2 then increases
                     else
                       (let latestViews = views_or_zero (point_views_at (points line) (int (length (points line)) - 1));
                            previousViews = views_or_zero (point_views_at (points line) (int (length (points line)) - 2));
                            delta = js_sub latestViews previousViews
                        in if js_gt delta (JFin 0)
                           then increases @
                                [\<lparr> inc_id = s_id line,
                                   inc_title = String (js_or (JStr (s_title line)) (JStr (''Sketch '' @ int_to_string (s_id line)))),
                                   inc_url = String (js_or (JStr (s_url line)) (JStr [])),
                                   delta = delta \<rparr>]
                           else increases)) [] lines
      in js_sort (\<lambda>left right. js_sub (delta right) (delta left)) increases)"

subsection \<open>The summary line\<close>

text \<open>
  What \<open>drawStats\<close> and \<open>drawPopupStats\<close> write under the total: which of the five
  messages, with the numbers it shows. \<open>NoneSince i d\<close> is "none since" the capture time of
  snapshot \<open>i\<close>, with the increase \<open>d\<close> seen there.
\<close>

datatype summary =
    WaitingForCaptures
  | WaitingForNextCapture
  | NewViews jsnum
  | NoneObservedYet
  | NoneSince nat jsnum

text \<open>
  The loop \<open>for (index = totals.length - 1; index >= 1; index -= 1)\<close> of both files,
  entered at \<open>index\<close>; \<open>-1\<close> when it finds no increase.
\<close>

fun lastIncreaseIndex_from :: "jsnum list \<Rightarrow> nat \<Rightarrow> int" where
  "lastIncreaseIndex_from totals 0 = - 1"
| "lastIncreaseIndex_from totals (Suc i) =
     (if js_gt (totals ! Suc i) (totals ! i) then int (Suc i) else lastIncreaseIndex_from totals i)"

definition lastIncreaseIndex :: "jsnum list \<Rightarrow> int" where
  "lastIncreaseIndex totals = lastIncreaseIndex_from totals (length totals - 1)"

definition lookback :: "jsnum list \<Rightarrow> summary" where
  "lookback totals =
     (let lastIncreaseIndex = lastIncreaseIndex totals
      in if lastIncreaseIndex = - 1 then NoneObservedYet
         else NoneSince (nat lastIncreaseIndex)
                (js_sub (totals ! nat lastIncreaseIndex) (totals ! (nat lastIncreaseIndex - 1))))"

text \<open>options.js: drawStats.\<close>

definition series_totals :: "series list \<Rightarrow> nat \<Rightarrow> jsnum list" where
  "series_totals lines snapshotCount =
     map (\<lambda>snapshotIndex.
            foldl (\<lambda>sum line. js_add sum (views_or_zero (point_views_at (points line) (int snapshotIndex))))
                  (JFin 0) lines)
         [0 ..< snapshotCount]"

definition latestDelta :: "jsnum list \<Rightarrow> jsnum option" where
  "latestDelta totals =
     (let latestTotal = (if totals \<noteq> [] then last totals else JFin 0);
          previousTotal = (if length totals > 1 then Some (totals ! (length totals - 2)) else None)
      in case previousTotal of None \<Rightarrow> None | Some p \<Rightarrow> Some (js_sub latestTotal p))"

record stats =
  totalViews :: jsnum
  summary_of :: summary
  listed :: "increase list"

definition drawStats :: "series list \<Rightarrow> entry list \<Rightarrow> stats" where
  "drawStats lines snapshots =
     (let totals = series_totals lines (length snapshots);
          latestSketchIncreases = computeLatestSketchIncreasesFromSeries lines;
          latestTotal = (if totals \<noteq> [] then last totals else JFin 0)
      in case latestDelta totals of
           None \<Rightarrow> \<lparr> totalViews = latestTotal, summary_of = WaitingForNextCapture, listed = [] \<rparr>
         | Some d \<Rightarrow>
             if js_gt d (JFin 0)
             then \<lparr> totalViews = latestTotal, summary_of = NewViews d, listed = latestSketchIncreases \<rparr>
             else \<lparr> totalViews = latestTotal, summary_of = lookback totals, listed = [] \<rparr>)"

text \<open>popup.js: drawPopupStats.\<close>

definition snapshot_totals :: "(string \<Rightarrow> jsnum) \<Rightarrow> entry list \<Rightarrow> jsnum list" where
  "snapshot_totals s2n history =
     map (\<lambda>snapshot. foldl (\<lambda>sum sketch. js_add sum (sketch_views s2n sketch)) (JFin 0) (opt_sketches snapshot))
         history"

definition drawPopupStats :: "(string \<Rightarrow> jsnum) \<Rightarrow> entry list \<Rightarrow> stats" where
  "drawPopupStats s2n history =
     (if history = [] then \<lparr> totalViews = JFin 0, summary_of = WaitingForCaptures, listed = [] \<rparr>
      else
        (let totals = snapshot_totals s2n history;
             latestTotal = views_or_zero (Some (last totals))
         in if length totals < 2
            then \<lparr> totalViews = latestTotal, summary_of = WaitingForNextCapture, listed = [] \<rparr>
            else
              (let latestSnapshot = history ! (length history - 1);
                   previousSnapshot = history ! (length history - 2);
                   latestSketchIncreases = computeSketchIncreasesFromSnapshots s2n previousSnapshot latestSnapshot;
                   latestDelta = js_sub latestTotal (views_or_zero (Some (totals ! (length totals - 2))))
               in if js_gt latestDelta (JFin 0)
                  then \<lparr> totalViews = latestTotal, summary_of = NewViews latestDelta, listed = latestSketchIncreases \<rparr>
                  else \<lparr> totalViews = latestTotal, summary_of = lookback totals, listed = [] \<rparr>)))"

section \<open>Notions used in the statements\<close>

text \<open>
  The effective timestamp of an entry in milliseconds: the parse of its \<open>fetched_at\<close>, or
  of its \<open>date\<close> when it has no \<open>fetched_at\<close>; \<open>0\<close> when that text does not parse.
\<close>

definition timestamp_ms :: "(string \<Rightarrow> int option) \<Rightarrow> entry \<Rightarrow> int" where
  "timestamp_ms dp e = (case Date_parse dp (effective_text e) of JFin t \<Rightarrow> t | _ \<Rightarrow> 0)"

text \<open>A snapshot as a capture makes it: \<open>fetched_at\<close> is a non-empty string that parses.\<close>

definition stamped :: "(string \<Rightarrow> int option) \<Rightarrow> snapshot \<Rightarrow> bool" where
  "stamped dp s = (case fetched_at s of JStr f \<Rightarrow> f \<noteq> [] \<and> dp f \<noteq> None | _ \<Rightarrow> False)"

text \<open>
  The snapshots of a sequence that no later snapshot of the sequence replaces: of those
  with one \<open>fetched_at\<close>, the last.
\<close>

fun keep_last :: "snapshot list \<Rightarrow> snapshot list" where
  "keep_last [] = []"
| "keep_last (s # ss) = (if fetched_at s \<in> fetched_at ` set ss then keep_last ss else s # keep_last ss)"

text \<open>The invariant of a history that captures have built.\<close>

definition history_ok :: "(string \<Rightarrow> int option) \<Rightarrow> entry list \<Rightarrow> bool" where
  "history_ok dp h \<longleftrightarrow>
     (\<forall>e \<in> set h. \<exists>s. e = Some s \<and> stamped dp s)
   \<and> sorted (map (timestamp_ms dp) h)
   \<and> distinct (map opt_fetched_at h)"

text \<open>
  Index \<open>i\<close> is the latest increase of the totals: \<open>totals[i] > totals[i-1]\<close>, and no
  later adjacent pair increases. The totals have no increase at all.
\<close>

definition is_last_increase :: "jsnum list \<Rightarrow> nat \<Rightarrow> bool" where
  "is_last_increase totals i \<longleftrightarrow>
     1 \<le> i \<and> i < length totals \<and> js_gt (totals ! i) (totals ! (i - 1))
   \<and> list_all (\<lambda>j. \<not> js_gt (totals ! j) (totals ! (j - 1))) [Suc i ..< length totals]"

definition no_increase :: "jsnum list \<Rightarrow> bool" where
  "no_increase totals \<longleftrightarrow> list_all (\<lambda>j. \<not> js_gt (totals ! j) (totals ! (j - 1))) [1 ..< length totals]"

text \<open>
  The sketch records of a history in the order the loops of \<open>buildState\<close> visit them,
  each with the label of its snapshot; \<open>i\<close> is the index of the first entry.
\<close>

fun labelled_sketches :: "entry list \<Rightarrow> nat \<Rightarrow> (string \<times> sketch) list" where
  "labelled_sketches [] i = []"
| "labelled_sketches (e # es) i =
     map (Pair (snapshotLabel e i)) (opt_sketches e) @ labelled_sketches es (Suc i)"

text \<open>The views of the last record in a list of sketches whose id coerces to \<open>k\<close>.\<close>

definition last_views :: "(string \<Rightarrow> jsnum) \<Rightarrow> sketch list \<Rightarrow> int \<Rightarrow> jsnum option" where
  "last_views s2n ss k =
     (case filter (\<lambda>sk. Number s2n (sk_id sk) = JFin k) ss of
        [] \<Rightarrow> None
      | x # xs \<Rightarrow> Some (sketch_views s2n (last (x # xs))))"

text \<open>
  The object \<open>buildState\<close> stores for a sketch it has not seen, the views a map
  \<open>bySketch\<close> holds for sketch \<open>k\<close> under a label, and the views a sequence of labelled
  records leaves there.
\<close>

definition new_acc :: "int \<Rightarrow> sketch \<Rightarrow> sketch_acc" where
  "new_acc k sketch =
     \<lparr> a_id = k,
       a_title = String (js_or (sk_title sketch) (JStr (''Sketch '' @ int_to_string k))),
       a_url = String (js_or (sk_url sketch) (JStr [])),
       a_points = [] \<rparr>"

definition stored_views :: "(int \<times> sketch_acc) list \<Rightarrow> int \<Rightarrow> string \<Rightarrow> jsnum option" where
  "stored_views m k l = (case map_of m k of None \<Rightarrow> None | Some e \<Rightarrow> map_of (a_points e) l)"

fun latest_pt :: "(string \<Rightarrow> jsnum) \<Rightarrow> (string \<times> sketch) list \<Rightarrow> int \<Rightarrow> string \<Rightarrow> jsnum option \<Rightarrow> jsnum option" where
  "latest_pt s2n [] k l d = d"
| "latest_pt s2n (p # ps) k l d =
     latest_pt s2n ps k l
       (if Number s2n (sk_id (snd p)) = JFin k \<and> fst p = l then Some (sketch_views s2n (snd p)) else d)"

definition keys_ok :: "(int \<times> sketch_acc) list \<Rightarrow> bool" where
  "keys_ok m \<longleftrightarrow> distinct (map fst m) \<and> (\<forall>p \<in> set m. a_id (snd p) = fst p)"

text \<open>One turn of the inner loop, on a record paired with the label of its snapshot.\<close>

abbreviation loop_step :: "(string \<Rightarrow> jsnum) \<Rightarrow> (int \<times> sketch_acc) list \<Rightarrow> string \<times> sketch \<Rightarrow> (int \<times> sketch_acc) list" where
  "loop_step s2n \<equiv> (\<lambda>m p. add_sketch s2n (fst p) m (snd p))"


text \<open>The parts of the state \<open>buildState\<close> builds, for a history already put in order.\<close>

definition bySketch_of :: "(string \<Rightarrow> jsnum) \<Rightarrow> entry list \<Rightarrow> (int \<times> sketch_acc) list" where
  "bySketch_of s2n nh = foldl (loop_step s2n) [] (labelled_sketches nh 0)"

definition dates_of :: "entry list \<Rightarrow> (string \<times> jsval) list" where
  "dates_of nh =
     map_from_pairs (index_map (\<lambda>snapshot index.
       (snapshotLabel snapshot index, js_or (opt_fetched_at snapshot) (opt_date snapshot))) nh)"

definition candidates_of :: "(string \<Rightarrow> jsnum) \<Rightarrow> entry list \<Rightarrow> series list" where
  "candidates_of s2n nh = candidate_series (index_map snapshotLabel nh) (dates_of nh) (bySketch_of s2n nh)"

text \<open>The ids that the records of a history coerce to.\<close>

definition finite_ids :: "(string \<Rightarrow> jsnum) \<Rightarrow> entry list \<Rightarrow> int set" where
  "finite_ids s2n h = {k. \<exists>e \<in> set h. \<exists>sk \<in> set (opt_sketches e). Number s2n (sk_id sk) = JFin k}"

text \<open>
  A history entry without the records whose id does not coerce to a finite number, and
  the increase that \<open>computeSketchIncreasesFromSnapshots\<close> lists for one record, if any.
\<close>

definition finite_records :: "(string \<Rightarrow> jsnum) \<Rightarrow> sketch list \<Rightarrow> sketch list" where
  "finite_records s2n ss = filter (\<lambda>sk. isFinite (Number s2n (sk_id sk))) ss"

definition without_bad_ids :: "(string \<Rightarrow> jsnum) \<Rightarrow> entry \<Rightarrow> entry" where
  "without_bad_ids s2n e =
     (case e of None \<Rightarrow> None
      | Some s \<Rightarrow> Some (s\<lparr> sketches := map_option (finite_records s2n) (sketches s) \<rparr>))"

definition increase_of :: "(string \<Rightarrow> jsnum) \<Rightarrow> (int \<times> jsnum) list \<Rightarrow> sketch \<Rightarrow> increase option" where
  "increase_of s2n previousById sketch =
     (case Number s2n (sk_id sketch) of
        JFin sketchId \<Rightarrow>
          (let d = js_sub (sketch_views s2n sketch) (views_or_zero (map_get previousById sketchId))
           in if js_gt d (JFin 0)
              then Some \<lparr> inc_id = sketchId,
                          inc_title = String (js_or (sk_title sketch) (JStr (''Sketch '' @ int_to_string sketchId))),
                          inc_url = String (js_or (sk_url sketch) (JStr [])),
                          delta = d \<rparr>
              else None)
      | _ \<Rightarrow> None)"

definition series_delta :: "series \<Rightarrow> jsnum" where
  "series_delta line =
     js_sub (views_or_zero (point_views_at (points line) (int (length (points line)) - 1)))
            (views_or_zero (point_views_at (points line) (int (length (points line)) - 2)))"

definition series_increase :: "series \<Rightarrow> increase" where
  "series_increase line =
     \<lparr> inc_id = s_id line,
       inc_title = String (js_or (JStr (s_title line)) (JStr (''Sketch '' @ int_to_string (s_id line)))),
       inc_url = String (js_or (JStr (s_url line)) (JStr [])),
       delta = series_delta line \<rparr>"

text \<open>
  A snapshot as the collector makes it: at most one record for an id, and view counts
  that are non-negative integers.
\<close>

definition one_record_per_id :: "(string \<Rightarrow> jsnum) \<Rightarrow> entry \<Rightarrow> bool" where
  "one_record_per_id s2n e \<longleftrightarrow>
     distinct (map (\<lambda>sk. Number s2n (sk_id sk)) (finite_records s2n (opt_sketches e)))"

definition counted :: "(string \<Rightarrow> jsnum) \<Rightarrow> entry \<Rightarrow> bool" where
  "counted s2n e \<longleftrightarrow>
     (\<forall>sk \<in> set (finite_records s2n (opt_sketches e)). \<exists>v. 0 \<le> v \<and> sketch_views s2n sk = JFin v)"

text \<open>The id and the delta of an increase, without its title and url.\<close>

definition id_delta :: "increase \<Rightarrow> int \<times> jsnum" where
  "id_delta i = (inc_id i, delta i)"

section \<open>Example data\<close>

text \<open>
  \<open>Date.parse\<close> on the handful of strings the examples use, with the values the language
  gives them; every other string is taken as unparsable there.
\<close>

definition example_Date_parse :: "string \<Rightarrow> int option" where
  "example_Date_parse s =
     (if s = ''2026-01-01'' then Some 1767225600000
      else if s = ''2026-01-05'' then Some 1767571200000
      else if s = ''2026-01-10'' then Some 1768003200000
      else if s = ''2026-01-01T09:00:00.000+01:00'' then Some 1767254400000
      else if s = ''2026-01-02T09:00:00.000+01:00'' then Some 1767340800000
      else if s = ''2026-01-03T09:00:00.000+01:00'' then Some 1767427200000
      else None)"

definition mk_sketch :: "int \<Rightarrow> string \<Rightarrow> int \<Rightarrow> sketch" where
  "mk_sketch i t v =
     \<lparr> sk_id = JNum (JFin i), sk_title = JStr t, sk_views = JNum (JFin v), sk_url = JStr [] \<rparr>"

definition mk_snapshot :: "string \<Rightarrow> string \<Rightarrow> sketch list \<Rightarrow> snapshot" where
  "mk_snapshot d f ss =
     \<lparr> date = JStr d, fetched_at = JStr f, page_url = JStr ''https://openprocessing.org/'',
       sketches = Some ss \<rparr>"

definition snap_day1 :: snapshot where
  "snap_day1 = mk_snapshot ''2026-01-01'' ''2026-01-01T09:00:00.000+01:00'' [mk_sketch 1 ''A'' 10, mk_sketch 2 ''B'' 5]"

definition snap_day2 :: snapshot where
  "snap_day2 = mk_snapshot ''2026-01-02'' ''2026-01-02T09:00:00.000+01:00'' [mk_sketch 1 ''A'' 10, mk_sketch 2 ''B'' 5]"

definition snap_day2_again :: snapshot where
  "snap_day2_again = mk_snapshot ''2026-01-02'' ''2026-01-02T09:00:00.000+01:00'' [mk_sketch 1 ''A'' 12, mk_sketch 2 ''B'' 5, mk_sketch 3 ''C'' 3]"

definition snap_day3 :: snapshot where
  "snap_day3 = mk_snapshot ''2026-01-03'' ''2026-01-03T09:00:00.000+01:00'' [mk_sketch 1 ''A'' 12, mk_sketch 2 ''B'' 5, mk_sketch 3 ''C'' 3]"

text \<open>One sketch seen with 100, 150 and 150 views, as stored snapshots and as a built series.\<close>

definition history_100_150_150 :: "entry list" where
  "history_100_150_150 =
     [Some (mk_snapshot ''2026-01-01'' ''2026-01-01T09:00:00.000+01:00'' [mk_sketch 1 ''A'' 100]),
      Some (mk_snapshot ''2026-01-02'' ''2026-01-02T09:00:00.000+01:00'' [mk_sketch 1 ''A'' 150]),
      Some (mk_snapshot ''2026-01-03'' ''2026-01-03T09:00:00.000+01:00'' [mk_sketch 1 ''A'' 150])]"

definition mk_point :: "string \<Rightarrow> int \<Rightarrow> point" where
  "mk_point l v = \<lparr> timeLabel = l, p_date = JStr l, p_views = JFin v \<rparr>"

definition series_100_150_150 :: "series list" where
  "series_100_150_150 =
     [\<lparr> s_id = 1, s_title = ''A'', s_url = [],
        points = [mk_point ''2026-01-01T09:00:00.000+01:00'' 100,
                  mk_point ''2026-01-02T09:00:00.000+01:00'' 150,
                  mk_point ''2026-01-03T09:00:00.000+01:00'' 150],
        latestViews = JFin 150 \<rparr>]"

text \<open>The series of the sketches A, B and C over the captures of day 1 and day 3.\<close>

definition series_day1_day3 :: "series list" where
  "series_day1_day3 =
     [\<lparr> s_id = 1, s_title = ''A'', s_url = [],
        points = [mk_point ''2026-01-01T09:00:00.000+01:00'' 10, mk_point ''2026-01-03T09:00:00.000+01:00'' 12],
        latestViews = JFin 12 \<rparr>,
      \<lparr> s_id = 2, s_title = ''B'', s_url = [],
        points = [mk_point ''2026-01-01T09:00:00.000+01:00'' 5, mk_point ''2026-01-03T09:00:00.000+01:00'' 5],
        latestViews = JFin 5 \<rparr>,
      \<lparr> s_id = 3, s_title = ''C'', s_url = [],
        points = [mk_point ''2026-01-01T09:00:00.000+01:00'' 0, mk_point ''2026-01-03T09:00:00.000+01:00'' 3],
        latestViews = JFin 3 \<rparr>]"


definition series_zero :: "series list" where
  "series_zero =
     [\<lparr> s_id = 1, s_title = ''A'', s_url = [],
        points = [mk_point ''2026-01-01T09:00:00.000+01:00'' 10, mk_point ''2026-01-02T09:00:00.000+01:00'' 12],
        latestViews = JFin 12 \<rparr>]"

text \<open>The captures of A with two records whose id is no finite number.\<close>

definition history_bad_ids :: "entry list" where
  "history_bad_ids =
     [Some (mk_snapshot ''2026-01-01'' ''2026-01-01T09:00:00.000+01:00''
        [mk_sketch 1 ''A'' 10,
         \<lparr> sk_id = JUndefined, sk_title = JStr ''no id'', sk_views = JNum (JFin 7), sk_url = JStr [] \<rparr>]),
      Some (mk_snapshot ''2026-01-02'' ''2026-01-02T09:00:00.000+01:00''
        [\<lparr> sk_id = JNum JPosInf, sk_title = JStr ''infinite id'', sk_views = JNum (JFin 9), sk_url = JStr [] \<rparr>,
         mk_sketch 1 ''A'' 12])]"

definition history_good_ids :: "entry list" where
  "history_good_ids =
     [Some (mk_snapshot ''2026-01-01'' ''2026-01-01T09:00:00.000+01:00'' [mk_sketch 1 ''A'' 10]),
      Some (mk_snapshot ''2026-01-02'' ''2026-01-02T09:00:00.000+01:00'' [mk_sketch 1 ''A'' 12])]"

text \<open>A sketch that is given a new title between two captures.\<close>

definition snap_old_title :: snapshot where
  "snap_old_title = mk_snapshot ''2026-01-01'' ''2026-01-01T09:00:00.000+01:00'' [mk_sketch 1 ''Old title'' 1]"

definition snap_new_title :: snapshot where
  "snap_new_title = mk_snapshot ''2026-01-02'' ''2026-01-02T09:00:00.000+01:00'' [mk_sketch 1 ''New title'' 5]"

definition history_retitled :: "entry list" where
  "history_retitled = [Some snap_old_title, Some snap_new_title]"

definition series_retitled :: "series list" where
  "series_retitled =
     [\<lparr> s_id = 1, s_title = ''Old title'', s_url = [],
        points = [mk_point ''2026-01-01T09:00:00.000+01:00'' 1, mk_point ''2026-01-02T09:00:00.000+01:00'' 5],
        latestViews = JFin 5 \<rparr>]"

text \<open>A snapshot whose \<open>fetched_at\<close> and \<open>date\<close> are no dates.\<close>

definition snap_unparsable :: snapshot where
  "snap_unparsable = mk_snapshot ''not a date'' ''not a timestamp'' [mk_sketch 1 ''A'' 11]"

section \<open>Lemmas on the array operations\<close>

lemma findIndex_range: "findIndex p xs = - 1 \<or> (0 \<le> findIndex p xs \<and> findIndex p xs < int (length xs))"
  by (induction xs) (auto simp: Let_def)

lemma findIndex_none: "findIndex p xs < 0 \<longleftrightarrow> (\<forall>x \<in> set xs. \<not> p x)"
  by (induction xs) (auto simp: Let_def)

lemma findIndex_found:
  "0 \<le> findIndex p xs \<Longrightarrow> p (xs ! nat (findIndex p xs)) \<and> (\<forall>j < nat (findIndex p xs). \<not> p (xs ! j))"
proof (induction xs)
  case Nil
  then show ?case by simp
next
  case (Cons x xs)
  show ?case
  proof (cases "p x")
    case True
    then show ?thesis by simp
  next
    case False
    with Cons.prems have r: "0 \<le> findIndex p xs"
      by (simp add: Let_def split: if_splits)
    with False have eq: "findIndex p (x # xs) = findIndex p xs + 1"
      by (simp add: Let_def)
    from r have n: "nat (findIndex p xs + 1) = Suc (nat (findIndex p xs))"
      by simp
    from Cons.IH [OF r] False show ?thesis
      unfolding eq n by (auto simp: less_Suc_eq_0_disj)
  qed
qed


lemma findIndex_hit: "\<exists>x \<in> set xs. p x \<Longrightarrow> 0 \<le> findIndex p xs \<and> nat (findIndex p xs) < length xs"
  using findIndex_range [of p xs] findIndex_none [of p xs] by auto

lemma strict_eq_same: "strict_eq a c \<Longrightarrow> strict_eq b c \<Longrightarrow> a = b"
  by (cases a; cases b; cases c) auto

section \<open>Sorting by a key\<close>

lemma sort_insert_insort:
  assumes "\<forall>y \<in> set ys. comparator x y = JFin (k x - k y)"
  shows "sort_insert comparator x ys = insort_key k x ys"
  using assms by (induction ys) (auto simp: SortCompare_def)

lemma js_sort_sort_key:
  assumes "\<forall>x \<in> set xs. \<forall>y \<in> set xs. comparator x y = JFin (k x - k y)"
  shows "js_sort comparator xs = sort_key k xs"
  unfolding js_sort_def sort_key_def
  using assms
proof (induction xs)
  case Nil
  then show ?case by simp
next
  case (Cons x xs)
  then have IH: "foldr (sort_insert comparator) xs [] = foldr (insort_key k) xs []"
    by simp
  have "set (foldr (insort_key k) xs []) = set xs"
    using set_sort [of k xs] by (simp add: sort_key_def)
  with Cons.prems have "\<forall>y \<in> set (foldr (insort_key k) xs []). comparator x y = JFin (k x - k y)"
    by simp
  then show ?case
    using IH by (simp add: sort_insert_insort)
qed

lemma stamped_compare:
  assumes "stamped dp a" "stamped dp b"
  shows "appendSnapshot_compare dp (Some a) (Some b) = JFin (timestamp_ms dp (Some a) - timestamp_ms dp (Some b))"
  using assms
  by (auto simp: stamped_def appendSnapshot_compare_def timestamp_ms_def effective_text_def
      opt_fetched_at_def js_or_def Date_parse_def js_sub_def Let_def split: jsval.splits option.splits)


lemma stamped_strict_eq:
  "stamped dp s \<Longrightarrow> strict_eq v (fetched_at s) \<longleftrightarrow> v = fetched_at s"
  by (cases v) (auto simp: stamped_def split: jsval.splits)

lemma stamped_timestamp:
  "stamped dp a \<Longrightarrow> stamped dp b \<Longrightarrow> fetched_at a = fetched_at b \<Longrightarrow>
   timestamp_ms dp (Some a) = timestamp_ms dp (Some b)"
  by (auto simp: stamped_def timestamp_ms_def effective_text_def opt_fetched_at_def js_or_def
      split: jsval.splits)

lemma keep_last_snoc:
  "keep_last (ss @ [s]) = filter (\<lambda>x. fetched_at x \<noteq> fetched_at s) (keep_last ss) @ [s]"
  by (induction ss) auto

lemma appendSnapshot_step:
  assumes ok: "history_ok dp h" and st: "stamped dp s"
  shows "history_ok dp (appendSnapshot dp h s)"
    and "set (appendSnapshot dp h s) = {e \<in> set h. opt_fetched_at e \<noteq> fetched_at s} \<union> {Some s}"
proof -
  let ?p = "\<lambda>entry. strict_eq (opt_fetched_at entry) (fetched_at s)"
  let ?r = "findIndex ?p h"
  have peq: "\<And>e. ?p e \<longleftrightarrow> opt_fetched_at e = fetched_at s"
    using stamped_strict_eq [OF st] by simp
  from ok have all: "\<forall>e \<in> set h. \<exists>s. e = Some s \<and> stamped dp s"
    and srt: "sorted (map (timestamp_ms dp) h)"
    and dst: "distinct (map opt_fetched_at h)"
    by (auto simp: history_ok_def)
  have "history_ok dp (appendSnapshot dp h s)
      \<and> set (appendSnapshot dp h s) = {e \<in> set h. opt_fetched_at e \<noteq> fetched_at s} \<union> {Some s}"
  proof (cases "0 \<le> ?r")
    case True
    let ?i = "nat ?r"
    have res: "appendSnapshot dp h s = h[?i := Some s]"
      using True by (simp add: appendSnapshot_def Let_def)
    have lt: "?i < length h"
      using True findIndex_range [of ?p h] by auto
    have key: "opt_fetched_at (h ! ?i) = fetched_at s"
      using findIndex_found [OF True] peq by simp
    obtain s0 where s0: "h ! ?i = Some s0" "stamped dp s0"
      using all lt nth_mem by blast
    have keys: "map opt_fetched_at (h[?i := Some s]) = map opt_fetched_at h"
      using key lt by (simp add: map_update opt_fetched_at_def list_update_same_conv)
    have "timestamp_ms dp (Some s) = timestamp_ms dp (h ! ?i)"
      using stamped_timestamp [OF st s0(2)] key s0(1) by (simp add: opt_fetched_at_def)
    then have tms: "map (timestamp_ms dp) (h[?i := Some s]) = map (timestamp_ms dp) h"
      using lt by (simp add: map_update list_update_same_conv)
    have all': "\<forall>e \<in> set (h[?i := Some s]). \<exists>s. e = Some s \<and> stamped dp s"
      using all st by (auto dest!: set_update_subset_insert [THEN subsetD])
    have dh: "distinct h"
      using dst by (simp add: distinct_map)
    have "set (h[?i := Some s]) = insert (Some s) (set h - {h ! ?i})"
      using dh lt by (rule set_update_distinct)
    moreover have "set h - {h ! ?i} = {e \<in> set h. opt_fetched_at e \<noteq> fetched_at s}"
    proof -
      have "\<And>e. e \<in> set h \<Longrightarrow> opt_fetched_at e = fetched_at s \<Longrightarrow> e = h ! ?i"
      proof -
        fix e assume e: "e \<in> set h" "opt_fetched_at e = fetched_at s"
        then obtain j where j: "j < length h" "h ! j = e"
          by (auto simp: in_set_conv_nth)
        from j e key lt have "map opt_fetched_at h ! j = map opt_fetched_at h ! ?i"
          by simp
        with j(1) lt have "j = ?i"
          using nth_eq_iff_index_eq [OF dst, of j ?i] by simp
        with j show "e = h ! ?i" by simp
      qed
      with key show ?thesis by auto
    qed
    ultimately have "set (h[?i := Some s]) = {e \<in> set h. opt_fetched_at e \<noteq> fetched_at s} \<union> {Some s}"
      by simp
    then show ?thesis
      using res all' keys tms srt dst by (simp add: history_ok_def)
  next
    case False
    let ?h' = "h @ [Some s]"
    have res0: "appendSnapshot dp h s = js_sort (appendSnapshot_compare dp) ?h'"
      using False by (simp add: appendSnapshot_def Let_def)
    have all': "\<forall>e \<in> set ?h'. \<exists>s. e = Some s \<and> stamped dp s"
      using all st by auto
    have "appendSnapshot_compare dp x y = JFin (timestamp_ms dp x - timestamp_ms dp y)"
      if "x \<in> set ?h'" "y \<in> set ?h'" for x y
    proof -
      from all' that obtain a b where "x = Some a" "stamped dp a" "y = Some b" "stamped dp b"
        by blast
      then show ?thesis
        by (simp add: stamped_compare)
    qed
    then have "\<forall>x \<in> set ?h'. \<forall>y \<in> set ?h'.
        appendSnapshot_compare dp x y = JFin (timestamp_ms dp x - timestamp_ms dp y)"
      by blast
    then have res: "appendSnapshot dp h s = sort_key (timestamp_ms dp) ?h'"
      unfolding res0 by (rule js_sort_sort_key)
    have nokey: "\<forall>e \<in> set h. opt_fetched_at e \<noteq> fetched_at s"
      using False findIndex_none [of ?p h] peq by auto
    then have d': "distinct (map opt_fetched_at ?h')"
      using dst by (auto simp: opt_fetched_at_def)
    have "mset (map opt_fetched_at (sort_key (timestamp_ms dp) ?h')) = mset (map opt_fetched_at ?h')"
      by simp
    then have "distinct (map opt_fetched_at (sort_key (timestamp_ms dp) ?h'))"
      using d' by (metis mset_eq_imp_distinct_iff)
    moreover have "set (sort_key (timestamp_ms dp) ?h') = {e \<in> set h. opt_fetched_at e \<noteq> fetched_at s} \<union> {Some s}"
      using nokey by auto
    moreover have "sorted (map (timestamp_ms dp) (sort_key (timestamp_ms dp) ?h'))"
      by (rule sorted_sort_key)
    moreover have "\<forall>e \<in> set (sort_key (timestamp_ms dp) ?h'). \<exists>s. e = Some s \<and> stamped dp s"
      using all' by simp
    ultimately show ?thesis
      unfolding res history_ok_def by blast
  qed
  then show "history_ok dp (appendSnapshot dp h s)"
    and "set (appendSnapshot dp h s) = {e \<in> set h. opt_fetched_at e \<noteq> fetched_at s} \<union> {Some s}"
    by simp_all
qed

lemma merge_all_invariant:
  assumes "\<forall>s \<in> set snaps. stamped dp s"
  shows "history_ok dp (merge_all dp snaps) \<and> set (merge_all dp snaps) = Some ` set (keep_last snaps)"
  using assms
proof (induction snaps rule: rev_induct)
  case Nil
  then show ?case by (simp add: merge_all_def history_ok_def)
next
  case (snoc s snaps)
  then have ok: "history_ok dp (merge_all dp snaps)"
    and st: "set (merge_all dp snaps) = Some ` set (keep_last snaps)"
    and s: "stamped dp s"
    by simp_all
  have m: "merge_all dp (snaps @ [s]) = appendSnapshot dp (merge_all dp snaps) s"
    by (simp add: merge_all_def)
  have "set (appendSnapshot dp (merge_all dp snaps) s) = Some ` set (keep_last (snaps @ [s]))"
    unfolding appendSnapshot_step(2) [OF ok s] st keep_last_snoc
    by (auto simp: opt_fetched_at_def)
  with appendSnapshot_step(1) [OF ok s] show ?case
    unfolding m by simp
qed


lemma keep_last_keys: "fetched_at ` set (keep_last ss) = fetched_at ` set ss"
  by (induction ss) auto

lemma keep_last_distinct: "distinct (map fetched_at (keep_last ss))"
proof (induction ss)
  case Nil
  then show ?case by simp
next
  case (Cons s ss)
  have "fetched_at s \<notin> fetched_at ` set ss \<Longrightarrow> fetched_at s \<notin> fetched_at ` set (keep_last ss)"
    by (simp add: keep_last_keys)
  with Cons show ?case by simp
qed

lemmas ex_defs = snap_day1_def snap_day2_def snap_day2_again_def snap_day3_def mk_snapshot_def mk_sketch_def
  stamped_def example_Date_parse_def

section \<open>The totals and the scan for the latest increase\<close>

lemma length_series_totals: "length (series_totals lines n) = n"
  by (simp add: series_totals_def)

lemma length_snapshot_totals: "length (snapshot_totals s2n history) = length history"
  by (simp add: snapshot_totals_def)

lemma latestDelta_eq:
  "latestDelta totals =
     (if length totals < 2 then None
      else Some (js_sub (totals ! (length totals - 1)) (totals ! (length totals - 2))))"
  by (cases "totals = []") (auto simp: latestDelta_def Let_def last_conv_nth)

lemma lastIncreaseIndex_from_none:
  "list_all (\<lambda>j. \<not> js_gt (totals ! j) (totals ! (j - 1))) [1 ..< Suc k] \<Longrightarrow>
   lastIncreaseIndex_from totals k = - 1"
  by (induction k) auto

lemma lastIncreaseIndex_from_some:
  "1 \<le> i \<Longrightarrow> i \<le> k \<Longrightarrow> js_gt (totals ! i) (totals ! (i - 1)) \<Longrightarrow>
   list_all (\<lambda>j. \<not> js_gt (totals ! j) (totals ! (j - 1))) [Suc i ..< Suc k] \<Longrightarrow>
   lastIncreaseIndex_from totals k = int i"
proof (induction k)
  case 0
  then show ?case by simp
next
  case (Suc k)
  show ?case
  proof (cases "i = Suc k")
    case True
    with Suc.prems show ?thesis by simp
  next
    case False
    with Suc.prems have "i \<le> k" by simp
    moreover from Suc.prems False have "\<not> js_gt (totals ! Suc k) (totals ! k)"
      and "list_all (\<lambda>j. \<not> js_gt (totals ! j) (totals ! (j - 1))) [Suc i ..< Suc k]"
      by (auto simp: list_all_iff)
    ultimately show ?thesis
      using Suc.IH Suc.prems by simp
  qed
qed

lemma lookback_none: "no_increase totals \<Longrightarrow> lookback totals = NoneObservedYet"
proof (cases totals)
  case Nil
  then show ?thesis by (simp add: lookback_def lastIncreaseIndex_def)
next
  case (Cons a list)
  assume "no_increase totals"
  with Cons have "lastIncreaseIndex_from totals (length totals - 1) = - 1"
    by (intro lastIncreaseIndex_from_none) (simp add: no_increase_def)
  then show ?thesis
    by (simp add: lookback_def lastIncreaseIndex_def)
qed

lemma lookback_some:
  assumes "is_last_increase totals i"
  shows "lookback totals = NoneSince i (js_sub (totals ! i) (totals ! (i - 1)))"
proof -
  from assms have i: "1 \<le> i" "i < length totals" "js_gt (totals ! i) (totals ! (i - 1))"
    and rest: "list_all (\<lambda>j. \<not> js_gt (totals ! j) (totals ! (j - 1))) [Suc i ..< length totals]"
    by (simp_all add: is_last_increase_def)
  from i have k: "Suc (length totals - 1) = length totals" "i \<le> length totals - 1"
    by simp_all
  from rest have "list_all (\<lambda>j. \<not> js_gt (totals ! j) (totals ! (j - 1))) [Suc i ..< Suc (length totals - 1)]"
    by (simp only: k(1))
  then have "lastIncreaseIndex_from totals (length totals - 1) = int i"
    by (rule lastIncreaseIndex_from_some [OF i(1) k(2) i(3)])
  then show ?thesis
    by (simp add: lookback_def lastIncreaseIndex_def)
qed


lemma drawStats_summary:
  "summary_of (drawStats lines snapshots) =
     (case latestDelta (series_totals lines (length snapshots)) of
        None \<Rightarrow> WaitingForNextCapture
      | Some d \<Rightarrow> if js_gt d (JFin 0) then NewViews d else lookback (series_totals lines (length snapshots)))"
  by (simp add: drawStats_def Let_def split: option.splits)

lemma drawPopupStats_summary:
  "summary_of (drawPopupStats s2n history) =
     (let totals = snapshot_totals s2n history;
          d = js_sub (views_or_zero (Some (last totals))) (views_or_zero (Some (totals ! (length totals - 2))))
      in if history = [] then WaitingForCaptures
         else if length history < 2 then WaitingForNextCapture
         else if js_gt d (JFin 0) then NewViews d
         else lookback totals)"
  by (simp add: drawPopupStats_def Let_def length_snapshot_totals)

lemma totals_100_150_150:
  "series_totals series_100_150_150 (length history_100_150_150) = [JFin 100, JFin 150, JFin 150]"
  by (simp add: series_totals_def series_100_150_150_def history_100_150_150_def mk_point_def
      point_views_at_def views_or_zero_def js_or_def upt_rec)

lemmas eval_defs = computeSketchIncreasesFromSnapshots_def previous_views_def sketch_views_def
  views_or_zero_def map_get_def opt_sketches_def js_or_def js_sub_def js_sort_def SortCompare_def Let_def

section \<open>The loops of buildState\<close>

subsection \<open>Maps\<close>

lemma map_of_map_set: "map_of (map_set k v m) = (map_of m)(k \<mapsto> v)"
  by (induction m) (auto simp: fun_eq_iff)

lemma map_fst_map_set:
  "map fst (map_set k v m) = (if k \<in> fst ` set m then map fst m else map fst m @ [k])"
  by (induction m) (force simp: image_iff)+

lemma distinct_map_set: "distinct (map fst m) \<Longrightarrow> distinct (map fst (map_set k v m))"
  by (simp add: map_fst_map_set)

subsection \<open>The sort of a comparator that never moves anything out of the list\<close>

lemma mset_sort_insert: "mset (sort_insert comparator x ys) = add_mset x (mset ys)"
  by (induction ys) auto

lemma mset_js_sort: "mset (js_sort comparator xs) = mset xs"
  unfolding js_sort_def by (induction xs) (simp_all add: mset_sort_insert)

lemma set_js_sort: "set (js_sort comparator xs) = set xs"
  using mset_js_sort [of comparator xs] by (metis set_mset_mset)

lemma length_js_sort: "length (js_sort comparator xs) = length xs"
  using mset_js_sort [of comparator xs] by (metis size_mset)

subsection \<open>snapshotTime\<close>

lemma snapshotTime_timestamp: "snapshotTime dp e = JFin (timestamp_ms dp e)"
  by (cases "Date_parse dp (effective_text e)")
     (simp_all add: snapshotTime_def timestamp_ms_def isNaN_def Date_parse_def split: option.splits)

lemma normalized_sort_key:
  "js_sort (\<lambda>a b. js_sub (snapshotTime dp a) (snapshotTime dp b)) history = sort_key (timestamp_ms dp) history"
  by (rule js_sort_sort_key) (simp add: snapshotTime_timestamp js_sub_def)

subsection \<open>One step of the loop\<close>

lemma add_sketch_skip:
  "\<not> isFinite (Number s2n (sk_id sk)) \<Longrightarrow> add_sketch s2n l m sk = m"
  by (cases "Number s2n (sk_id sk)") (simp_all add: add_sketch_def)

lemma add_sketch_finite:
  assumes "Number s2n (sk_id sk) = JFin k"
  shows "add_sketch s2n l m sk =
     (let base = (case map_of m k of Some e \<Rightarrow> e | None \<Rightarrow> new_acc k sk);
          m1 = (if map_of m k = None then map_set k (new_acc k sk) m else m)
      in map_set k (base\<lparr> a_points := map_set l (sketch_views s2n sk) (a_points base) \<rparr>) m1)"
  using assms
  by (auto simp: add_sketch_def map_has_def map_get_def map_of_map_set new_acc_def Let_def)

lemma add_sketch_map_of:
  assumes "Number s2n (sk_id sk) = JFin k"
  shows "map_of (add_sketch s2n l m sk) =
     (map_of m)(k \<mapsto> (case map_of m k of Some e \<Rightarrow> e | None \<Rightarrow> new_acc k sk)
                       \<lparr> a_points := map_set l (sketch_views s2n sk)
                            (a_points (case map_of m k of Some e \<Rightarrow> e | None \<Rightarrow> new_acc k sk)) \<rparr>)"
  unfolding add_sketch_finite [OF assms]
  by (auto simp: Let_def map_of_map_set fun_eq_iff)

lemma add_sketch_distinct:
  "distinct (map fst m) \<Longrightarrow> distinct (map fst (add_sketch s2n l m sk))"
proof (cases "Number s2n (sk_id sk)")
  case (JFin k)
  assume "distinct (map fst m)"
  then show ?thesis
    unfolding add_sketch_finite [OF JFin] by (simp add: Let_def distinct_map_set)
qed (simp_all add: add_sketch_skip)


lemma add_sketch_keys_ok:
  assumes "keys_ok m"
  shows "keys_ok (add_sketch s2n l m sk)"
proof (cases "Number s2n (sk_id sk)")
  case (JFin k)
  have d: "distinct (map fst (add_sketch s2n l m sk))"
    using assms by (simp add: keys_ok_def add_sketch_distinct)
  have "a_id e = k'" if "(k', e) \<in> set (add_sketch s2n l m sk)" for k' e
  proof -
    from that d have "map_of (add_sketch s2n l m sk) k' = Some e"
      by simp
    then have *: "((map_of m)(k \<mapsto> (case map_of m k of Some e \<Rightarrow> e | None \<Rightarrow> new_acc k sk)
                       \<lparr> a_points := map_set l (sketch_views s2n sk)
                            (a_points (case map_of m k of Some e \<Rightarrow> e | None \<Rightarrow> new_acc k sk)) \<rparr>)) k' = Some e"
      by (simp add: add_sketch_map_of [OF JFin])
    show ?thesis
    proof (cases "k' = k")
      case True
      with * have e: "e = (case map_of m k of Some e \<Rightarrow> e | None \<Rightarrow> new_acc k sk)
                       \<lparr> a_points := map_set l (sketch_views s2n sk)
                            (a_points (case map_of m k of Some e \<Rightarrow> e | None \<Rightarrow> new_acc k sk)) \<rparr>"
        by simp
      show ?thesis
      proof (cases "map_of m k")
        case None
        with e True show ?thesis by (simp add: new_acc_def)
      next
        case (Some e0)
        then have "(k, e0) \<in> set m" by (rule map_of_SomeD)
        with assms have "a_id e0 = k" by (auto simp: keys_ok_def)
        with e Some True show ?thesis by simp
      qed
    next
      case False
      with * have "map_of m k' = Some e" by simp
      then have "(k', e) \<in> set m" by (rule map_of_SomeD)
      with assms show ?thesis by (auto simp: keys_ok_def)
    qed
  qed
  with d show ?thesis
    by (auto simp: keys_ok_def)
qed (simp_all add: add_sketch_skip assms)

lemma add_sketch_keys:
  "fst ` set (add_sketch s2n l m sk) =
     (case Number s2n (sk_id sk) of JFin k \<Rightarrow> insert k (fst ` set m) | _ \<Rightarrow> fst ` set m)"
proof (cases "Number s2n (sk_id sk)")
  case (JFin k)
  have "dom (map_of (add_sketch s2n l m sk)) = insert k (dom (map_of m))"
    by (simp add: add_sketch_map_of [OF JFin])
  then show ?thesis
    using JFin by (simp add: dom_map_of_conv_image_fst)
qed (simp_all add: add_sketch_skip)

lemma stored_views_add_sketch:
  "stored_views (add_sketch s2n l' m sk) k l =
     (if Number s2n (sk_id sk) = JFin k \<and> l' = l then Some (sketch_views s2n sk) else stored_views m k l)"
proof (cases "Number s2n (sk_id sk)")
  case (JFin k')
  show ?thesis
    unfolding stored_views_def add_sketch_map_of [OF JFin] using JFin
    by (auto simp: map_of_map_set new_acc_def split: option.splits)
qed (simp_all add: add_sketch_skip)

lemma stored_views_fold:
  "stored_views (foldl (loop_step s2n) m ps) k l = latest_pt s2n ps k l (stored_views m k l)"
  by (induction ps arbitrary: m) (simp_all add: stored_views_add_sketch)

lemma keys_ok_fold: "keys_ok m \<Longrightarrow> keys_ok (foldl (loop_step s2n) m ps)"
  by (induction ps arbitrary: m) (simp_all add: add_sketch_keys_ok)

lemma keys_fold:
  "fst ` set (foldl (loop_step s2n) m ps) =
     fst ` set m \<union> {k. \<exists>p \<in> set ps. Number s2n (sk_id (snd p)) = JFin k}"
proof (induction ps arbitrary: m)
  case Nil
  then show ?case by simp
next
  case (Cons p ps)
  show ?case
    by (cases "Number s2n (sk_id (snd p))") (auto simp: Cons.IH add_sketch_keys)
qed

lemma collect_sketches_Inr:
  "None \<notin> set es \<Longrightarrow>
   collect_sketches s2n es i m = Inr (foldl (loop_step s2n) m (labelled_sketches es i))"
proof (induction es arbitrary: i m)
  case Nil
  then show ?case by simp
next
  case (Cons e es)
  then obtain s where e: "e = Some s" by (cases e) auto
  have blk: "foldl (loop_step s2n) m (map (Pair l) ss) = foldl (add_sketch s2n l) m ss" for l ss
    by (induction ss arbitrary: m) simp_all
  have os: "opt_sketches (Some s) = (case sketches s of Some ss \<Rightarrow> ss | None \<Rightarrow> [])"
    by (simp add: opt_sketches_def split: option.splits)
  from Cons show ?case
    unfolding e by (simp add: Let_def blk os)
qed

lemma collect_sketches_Inl:
  "None \<in> set es \<Longrightarrow> collect_sketches s2n es i m = Inl TypeError"
proof (induction es arbitrary: i m)
  case Nil
  then show ?case by simp
next
  case (Cons e es)
  then show ?case by (cases e) (auto simp: Let_def)
qed

lemma latest_pt_append:
  "latest_pt s2n (xs @ ys) k l d = latest_pt s2n ys k l (latest_pt s2n xs k l d)"
  by (induction xs arbitrary: d) simp_all

lemma latest_pt_other_label: "l' \<noteq> l \<Longrightarrow> latest_pt s2n (map (Pair l') ss) k l d = d"
  by (induction ss arbitrary: d) simp_all

lemma latest_pt_block:
  "latest_pt s2n (map (Pair l) ss) k l d = (case last_views s2n ss k of None \<Rightarrow> d | Some v \<Rightarrow> Some v)"
  by (induction ss arbitrary: d) (auto simp: last_views_def split: list.splits)

lemma latest_pt_labelled_miss:
  "(\<forall>j < length es. snapshotLabel (es ! j) (i + j) \<noteq> l) \<Longrightarrow>
   latest_pt s2n (labelled_sketches es i) k l d = d"
proof (induction es arbitrary: i)
  case Nil
  then show ?case by simp
next
  case (Cons e es)
  from Cons.prems have "snapshotLabel e i \<noteq> l"
    by (metis add.right_neutral length_greater_0_conv list.discI nth_Cons_0)
  moreover have "\<forall>j < length es. snapshotLabel (es ! j) (Suc i + j) \<noteq> l"
  proof (intro allI impI)
    fix j assume "j < length es"
    then have "Suc j < length (e # es)" by simp
    with Cons.prems have "snapshotLabel ((e # es) ! Suc j) (i + Suc j) \<noteq> l" by blast
    then show "snapshotLabel (es ! j) (Suc i + j) \<noteq> l" by simp
  qed
  ultimately show ?case
    using Cons.IH [of "Suc i"] by (simp add: latest_pt_append latest_pt_other_label)
qed

lemma latest_pt_labelled_hit:
  assumes "j < length es" and "snapshotLabel (es ! j) (i + j) = l"
    and "\<forall>j' < length es. j' \<noteq> j \<longrightarrow> snapshotLabel (es ! j') (i + j') \<noteq> l"
  shows "latest_pt s2n (labelled_sketches es i) k l d =
     (case last_views s2n (opt_sketches (es ! j)) k of None \<Rightarrow> d | Some v \<Rightarrow> Some v)"
  using assms
proof (induction es arbitrary: i j)
  case Nil
  then show ?case by simp
next
  case (Cons e es)
  show ?case
  proof (cases j)
    case 0
    have "\<forall>j' < length es. snapshotLabel (es ! j') (Suc i + j') \<noteq> l"
    proof (intro allI impI)
      fix j' assume "j' < length es"
      then have "Suc j' < length (e # es)" "Suc j' \<noteq> j" using 0 by simp_all
      with Cons.prems(3) have "snapshotLabel ((e # es) ! Suc j') (i + Suc j') \<noteq> l" by blast
      then show "snapshotLabel (es ! j') (Suc i + j') \<noteq> l" by simp
    qed
    then have "latest_pt s2n (labelled_sketches es (Suc i)) k l d' = d'" for d'
      by (rule latest_pt_labelled_miss)
    with Cons.prems(2) 0 show ?thesis
      by (simp add: latest_pt_append latest_pt_block)
  next
    case (Suc j0)
    with Cons.prems have j0: "j0 < length es" "snapshotLabel (es ! j0) (Suc i + j0) = l"
      by simp_all
    have others: "\<forall>j' < length es. j' \<noteq> j0 \<longrightarrow> snapshotLabel (es ! j') (Suc i + j') \<noteq> l"
    proof (intro allI impI)
      fix j' assume "j' < length es" "j' \<noteq> j0"
      then have "Suc j' < length (e # es)" "Suc j' \<noteq> j" using Suc by simp_all
      with Cons.prems(3) have "snapshotLabel ((e # es) ! Suc j') (i + Suc j') \<noteq> l" by blast
      then show "snapshotLabel (es ! j') (Suc i + j') \<noteq> l" by simp
    qed
    have "0 < length (e # es)" "0 \<noteq> j" using Suc by simp_all
    with Cons.prems(3) have "snapshotLabel ((e # es) ! 0) (i + 0) \<noteq> l" by blast
    then have "snapshotLabel e i \<noteq> l" by simp
    then show ?thesis
      using Cons.IH [OF j0 others] Suc
      by (simp add: latest_pt_append latest_pt_other_label)
  qed
qed

subsection \<open>The state that is built\<close>

lemma length_index_map: "length (index_map f xs) = length xs"
  by (simp add: index_map_def)

lemma nth_index_map: "i < length xs \<Longrightarrow> index_map f xs ! i = f (xs ! i) i"
  by (simp add: index_map_def)

lemma snd_labelled_sketches:
  "snd ` set (labelled_sketches es i) = (\<Union>e \<in> set es. set (opt_sketches e))"
  by (induction es arbitrary: i) (auto simp: image_Un image_image)

lemma keys_bySketch_of: "fst ` set (bySketch_of s2n nh) = finite_ids s2n nh"
proof -
  have "{k. \<exists>p \<in> set (labelled_sketches nh 0). Number s2n (sk_id (snd p)) = JFin k}
      = {k. \<exists>sk \<in> snd ` set (labelled_sketches nh 0). Number s2n (sk_id sk) = JFin k}"
    by auto
  also have "\<dots> = finite_ids s2n nh"
    unfolding snd_labelled_sketches finite_ids_def by auto
  finally show ?thesis
    by (simp add: bySketch_of_def keys_fold)
qed

lemma keys_ok_bySketch_of: "keys_ok (bySketch_of s2n nh)"
  unfolding bySketch_of_def by (rule keys_ok_fold) (simp add: keys_ok_def)

lemma buildState_Inr:
  assumes "None \<notin> set history"
  shows "buildState dp s2n history =
     Inr \<lparr> normalizedHistory = sort_key (timestamp_ms dp) history,
           timeLabels = index_map snapshotLabel (sort_key (timestamp_ms dp) history),
           series_of = js_sort (\<lambda>a b. js_sub (latestViews b) (latestViews a))
                         (filter has_views (candidates_of s2n (sort_key (timestamp_ms dp) history))) \<rparr>"
proof -
  from assms have "None \<notin> set (sort_key (timestamp_ms dp) history)"
    by simp
  then have "collect_sketches s2n (sort_key (timestamp_ms dp) history) 0 [] =
      Inr (bySketch_of s2n (sort_key (timestamp_ms dp) history))"
    unfolding bySketch_of_def by (rule collect_sketches_Inr)
  then show ?thesis
    by (simp add: buildState_def normalized_sort_key Let_def candidates_of_def dates_of_def)
qed

lemma buildState_Inl:
  assumes "None \<in> set history"
  shows "buildState dp s2n history = Inl TypeError"
proof -
  from assms have "None \<in> set (sort_key (timestamp_ms dp) history)"
    by simp
  then have "collect_sketches s2n (sort_key (timestamp_ms dp) history) 0 [] = Inl TypeError"
    by (rule collect_sketches_Inl)
  then show ?thesis
    by (simp add: buildState_def normalized_sort_key Let_def)
qed

lemma buildState_cases:
  "buildState dp s2n history = Inr st \<Longrightarrow>
     None \<notin> set history
   \<and> normalizedHistory st = sort_key (timestamp_ms dp) history
   \<and> timeLabels st = index_map snapshotLabel (normalizedHistory st)
   \<and> series_of st = js_sort (\<lambda>a b. js_sub (latestViews b) (latestViews a))
                       (filter has_views (candidates_of s2n (normalizedHistory st)))"
  by (cases "None \<in> set history") (auto simp: buildState_Inl buildState_Inr)

lemma set_series_of:
  "buildState dp s2n history = Inr st \<Longrightarrow>
   set (series_of st) = {c \<in> set (candidates_of s2n (normalizedHistory st)). has_views c}"
  by (auto dest!: buildState_cases simp: set_js_sort)

text \<open>A candidate series is made from one entry of the map, and holds its id.\<close>

lemma candidate_from:
  assumes "c \<in> set (candidates_of s2n nh)"
  obtains acc where "map_of (bySketch_of s2n nh) (s_id c) = Some acc"
    and "c = make_series (index_map snapshotLabel nh) (dates_of nh) acc"
    and "s_id c \<in> finite_ids s2n nh"
proof -
  from assms obtain k acc where m: "(k, acc) \<in> set (bySketch_of s2n nh)"
    and c: "c = make_series (index_map snapshotLabel nh) (dates_of nh) acc"
    by (auto simp: candidates_of_def candidate_series_def)
  from m keys_ok_bySketch_of [of s2n nh] have k: "a_id acc = k" and "map_of (bySketch_of s2n nh) k = Some acc"
    by (auto simp: keys_ok_def)
  moreover from c have "s_id c = a_id acc"
    by (simp add: make_series_def Let_def)
  moreover from m have "k \<in> finite_ids s2n nh"
    using keys_bySketch_of [of s2n nh] by (metis fst_conv image_eqI)
  ultimately show ?thesis
    using c that by simp
qed

lemma candidate_of_id:
  assumes "k \<in> finite_ids s2n nh"
  obtains c where "c \<in> set (candidates_of s2n nh)" and "s_id c = k"
proof -
  from assms have "k \<in> fst ` set (bySketch_of s2n nh)"
    by (simp add: keys_bySketch_of)
  then obtain acc where m: "(k, acc) \<in> set (bySketch_of s2n nh)"
    by auto
  with keys_ok_bySketch_of [of s2n nh] have "a_id acc = k"
    by (auto simp: keys_ok_def)
  then have "s_id (make_series (index_map snapshotLabel nh) (dates_of nh) acc) = k"
    by (simp add: make_series_def Let_def)
  moreover from m have "make_series (index_map snapshotLabel nh) (dates_of nh) acc \<in> set (candidates_of s2n nh)"
    by (force simp: candidates_of_def candidate_series_def)
  ultimately show ?thesis
    using that by blast
qed

lemma candidate_points_length:
  "c \<in> set (candidates_of s2n nh) \<Longrightarrow> length (points c) = length nh"
  by (auto simp: candidates_of_def candidate_series_def make_series_def Let_def length_index_map)

lemma candidate_point_views:
  assumes "c \<in> set (candidates_of s2n nh)" and "i < length nh"
  shows "p_views (points c ! i) =
     views_or_zero (latest_pt s2n (labelled_sketches nh 0) (s_id c) (snapshotLabel (nh ! i) i) None)"
proof -
  from assms(1) obtain acc where acc: "map_of (bySketch_of s2n nh) (s_id c) = Some acc"
    and c: "c = make_series (index_map snapshotLabel nh) (dates_of nh) acc"
    by (rule candidate_from)
  from c assms(2) have "p_views (points c ! i) = views_or_zero (map_of (a_points acc) (snapshotLabel (nh ! i) i))"
    by (simp add: make_series_def Let_def length_index_map nth_index_map map_get_def)
  also have "map_of (a_points acc) (snapshotLabel (nh ! i) i)
      = stored_views (bySketch_of s2n nh) (s_id c) (snapshotLabel (nh ! i) i)"
    using acc by (simp add: stored_views_def)
  also have "\<dots> = latest_pt s2n (labelled_sketches nh 0) (s_id c) (snapshotLabel (nh ! i) i) None"
    unfolding bySketch_of_def stored_views_fold by (simp add: stored_views_def)
  finally show ?thesis .
qed

lemma candidate_point_views_distinct:
  assumes "c \<in> set (candidates_of s2n nh)" and "i < length nh"
    and "distinct (index_map snapshotLabel nh)"
  shows "p_views (points c ! i) = views_or_zero (last_views s2n (opt_sketches (nh ! i)) (s_id c))"
proof -
  have "snapshotLabel (nh ! j) (0 + j) \<noteq> snapshotLabel (nh ! i) i" if "j < length nh" "j \<noteq> i" for j
  proof -
    from that assms(2) have "index_map snapshotLabel nh ! j \<noteq> index_map snapshotLabel nh ! i"
      using nth_eq_iff_index_eq [OF assms(3), of j i] by (simp add: length_index_map)
    with that assms(2) show ?thesis
      by (simp add: nth_index_map)
  qed
  then have "latest_pt s2n (labelled_sketches nh 0) (s_id c) (snapshotLabel (nh ! i) i) None
      = (case last_views s2n (opt_sketches (nh ! i)) (s_id c) of None \<Rightarrow> None | Some v \<Rightarrow> Some v)"
    using assms(2) by (intro latest_pt_labelled_hit) simp_all
  also have "\<dots> = last_views s2n (opt_sketches (nh ! i)) (s_id c)"
    by (simp split: option.splits)
  finally show ?thesis
    by (simp add: candidate_point_views [OF assms(1,2)])
qed

lemma last_views_absent:
  "\<forall>sk \<in> set ss. Number s2n (sk_id sk) \<noteq> JFin k \<Longrightarrow> last_views s2n ss k = None"
  by (simp add: last_views_def filter_empty_conv split: list.splits)

lemma has_views_iff: "has_views c \<longleftrightarrow> (\<exists>p \<in> set (points c). js_gt (p_views p) (JFin 0))"
  by (simp add: has_views_def list_ex_iff)


lemma finite_ids_sort: "finite_ids s2n (sort_key f h) = finite_ids s2n h"
  by (simp add: finite_ids_def)

lemma candidate_ids: "s_id ` set (candidates_of s2n nh) = finite_ids s2n nh"
proof
  show "s_id ` set (candidates_of s2n nh) \<subseteq> finite_ids s2n nh"
    by (auto elim: candidate_from)
  show "finite_ids s2n nh \<subseteq> s_id ` set (candidates_of s2n nh)"
    by (auto elim!: candidate_of_id)
qed


subsection \<open>Records that are skipped\<close>

lemma foldl_filter_skip:
  "(\<And>a x. \<not> P x \<Longrightarrow> f a x = a) \<Longrightarrow> foldl f a (filter P xs) = foldl f a xs"
  by (induction xs arbitrary: a) simp_all

lemma opt_sketches_without_bad_ids:
  "opt_sketches (without_bad_ids s2n e) = finite_records s2n (opt_sketches e)"
  by (simp add: opt_sketches_def without_bad_ids_def finite_records_def split: option.splits)

lemma without_bad_ids_fields:
  "opt_fetched_at (without_bad_ids s2n e) = opt_fetched_at e"
  "opt_date (without_bad_ids s2n e) = opt_date e"
  by (simp_all add: opt_fetched_at_def opt_date_def without_bad_ids_def split: option.splits)

lemma without_bad_ids_time: "timestamp_ms dp (without_bad_ids s2n e) = timestamp_ms dp e"
  by (simp add: timestamp_ms_def effective_text_def without_bad_ids_fields)

lemma without_bad_ids_label: "snapshotLabel (without_bad_ids s2n e) i = snapshotLabel e i"
  by (simp add: snapshotLabel_def without_bad_ids_fields)

lemma without_bad_ids_None: "None \<in> set (map (without_bad_ids s2n) h) \<longleftrightarrow> None \<in> set h"
  by (auto simp: without_bad_ids_def image_iff split: option.splits)

lemma insort_key_map:
  "(\<And>z. f (g z) = f z) \<Longrightarrow> insort_key f (g x) (map g ys) = map g (insort_key f x ys)"
  by (induction ys) simp_all

lemma sort_key_map:
  "(\<And>z. f (g z) = f z) \<Longrightarrow> sort_key f (map g xs) = map g (sort_key f xs)"
  unfolding sort_key_def by (induction xs) (simp_all add: insort_key_map)

lemma index_map_map: "index_map f (map g xs) = index_map (\<lambda>x i. f (g x) i) xs"
  by (simp add: index_map_def zip_map1 case_prod_unfold)

lemma labelled_without_bad_ids:
  "labelled_sketches (map (without_bad_ids s2n) es) i =
     filter (\<lambda>p. isFinite (Number s2n (sk_id (snd p)))) (labelled_sketches es i)"
  by (induction es arbitrary: i)
     (simp_all add: opt_sketches_without_bad_ids without_bad_ids_label finite_records_def filter_map comp_def)

lemma bySketch_without_bad_ids: "bySketch_of s2n (map (without_bad_ids s2n) nh) = bySketch_of s2n nh"
  unfolding bySketch_of_def labelled_without_bad_ids
  by (rule foldl_filter_skip) (simp add: add_sketch_skip)

lemma candidates_without_bad_ids: "candidates_of s2n (map (without_bad_ids s2n) nh) = candidates_of s2n nh"
  by (simp add: candidates_of_def bySketch_without_bad_ids dates_of_def index_map_map
      without_bad_ids_label without_bad_ids_fields)

lemma buildState_without_bad_ids:
  "map_sum id (\<lambda>st. (timeLabels st, series_of st)) (buildState dp s2n (map (without_bad_ids s2n) history))
   = map_sum id (\<lambda>st. (timeLabels st, series_of st)) (buildState dp s2n history)"
proof (cases "None \<in> set history")
  case True
  then have "None \<in> set (map (without_bad_ids s2n) history)"
    by (simp only: without_bad_ids_None)
  with True show ?thesis
    by (simp add: buildState_Inl)
next
  case False
  then have "None \<notin> set (map (without_bad_ids s2n) history)"
    by (simp only: without_bad_ids_None not_False_eq_True)
  moreover have "sort_key (timestamp_ms dp) (map (without_bad_ids s2n) history)
      = map (without_bad_ids s2n) (sort_key (timestamp_ms dp) history)"
    by (rule sort_key_map) (rule without_bad_ids_time)
  ultimately show ?thesis
    using False
    by (simp add: buildState_Inr candidates_without_bad_ids index_map_map without_bad_ids_label)
qed

subsection \<open>The increases as lists\<close>

lemma foldl_snoc_if:
  "foldl (\<lambda>acc x. case g x of Some y \<Rightarrow> acc @ [y] | None \<Rightarrow> acc) acc xs = acc @ List.map_filter g xs"
  by (induction xs arbitrary: acc) (simp_all add: List.map_filter_simps split: option.splits)

lemma increases_from_snapshots:
  "computeSketchIncreasesFromSnapshots s2n previous latest =
     js_sort (\<lambda>left right. js_sub (delta right) (delta left))
       (List.map_filter (increase_of s2n (previous_views s2n (opt_sketches previous))) (opt_sketches latest))"
proof -
  let ?prev = "previous_views s2n (opt_sketches previous)"
  have "(\<lambda>increases sketch.
            (case Number s2n (sk_id sketch) of
               JFin sketchId \<Rightarrow>
                 (let latestViews = sketch_views s2n sketch;
                      previousViews = views_or_zero (map_get ?prev sketchId);
                      delta = js_sub latestViews previousViews
                  in if js_gt delta (JFin 0)
                     then increases @
                          [\<lparr> inc_id = sketchId,
                             inc_title = String (js_or (sk_title sketch) (JStr (''Sketch '' @ int_to_string sketchId))),
                             inc_url = String (js_or (sk_url sketch) (JStr [])),
                             delta = delta \<rparr>]
                     else increases)
             | _ \<Rightarrow> increases))
      = (\<lambda>acc x. case increase_of s2n ?prev x of Some y \<Rightarrow> acc @ [y] | None \<Rightarrow> acc)"
    by (intro ext) (simp add: increase_of_def Let_def split: jsnum.splits)
  then show ?thesis
    by (simp add: computeSketchIncreasesFromSnapshots_def Let_def foldl_snoc_if)
qed

lemma increases_from_series:
  "computeLatestSketchIncreasesFromSeries lines =
     js_sort (\<lambda>left right. js_sub (delta right) (delta left))
       (map series_increase
          (filter (\<lambda>line. 2 \<le> length (points line) \<and> js_gt (series_delta line) (JFin 0)) lines))"
proof -
  have "foldl (\<lambda>increases line.
                     if length (points line) < 2 then increases
                     else
                       (let latestViews = views_or_zero (point_views_at (points line) (int (length (points line)) - 1));
                            previousViews = views_or_zero (point_views_at (points line) (int (length (points line)) - 2));
                            delta = js_sub latestViews previousViews
                        in if js_gt delta (JFin 0)
                           then increases @
                                [\<lparr> inc_id = s_id line,
                                   inc_title = String (js_or (JStr (s_title line)) (JStr (''Sketch '' @ int_to_string (s_id line)))),
                                   inc_url = String (js_or (JStr (s_url line)) (JStr [])),
                                   delta = delta \<rparr>]
                           else increases)) acc lines
      = acc @ map series_increase
          (filter (\<lambda>line. 2 \<le> length (points line) \<and> js_gt (series_delta line) (JFin 0)) lines)" for acc
    by (induction lines arbitrary: acc) (simp_all add: series_increase_def series_delta_def Let_def)
  then show ?thesis
    by (simp add: computeLatestSketchIncreasesFromSeries_def Let_def)
qed

lemma previous_views_finite:
  "previous_views s2n (finite_records s2n ss) = previous_views s2n ss"
  unfolding previous_views_def finite_records_def
proof (rule foldl_filter_skip)
  fix a :: "(int \<times> jsnum) list" and x :: sketch
  assume "\<not> isFinite (Number s2n (sk_id x))"
  then show "(case Number s2n (sk_id x) of JFin sketchId \<Rightarrow> map_set sketchId (sketch_views s2n x) a | _ \<Rightarrow> a) = a"
    by (cases "Number s2n (sk_id x)") simp_all
qed

lemma increase_of_skip: "\<not> isFinite (Number s2n (sk_id sk)) \<Longrightarrow> increase_of s2n prev sk = None"
  by (cases "Number s2n (sk_id sk)") (simp_all add: increase_of_def)

lemma map_filter_finite:
  "List.map_filter (increase_of s2n prev) (finite_records s2n ss) = List.map_filter (increase_of s2n prev) ss"
proof (induction ss)
  case Nil
  then show ?case by (simp add: finite_records_def)
next
  case (Cons sk ss)
  then have IH: "List.map_filter (increase_of s2n prev) (filter (\<lambda>sk. isFinite (Number s2n (sk_id sk))) ss)
      = List.map_filter (increase_of s2n prev) ss"
    by (simp add: finite_records_def)
  show ?case
    by (cases "isFinite (Number s2n (sk_id sk))") (simp_all add: finite_records_def IH increase_of_skip split: option.splits)
qed

lemma increases_without_bad_ids:
  "computeSketchIncreasesFromSnapshots s2n (without_bad_ids s2n previous) (without_bad_ids s2n latest)
   = computeSketchIncreasesFromSnapshots s2n previous latest"
  by (simp add: increases_from_snapshots opt_sketches_without_bad_ids previous_views_finite map_filter_finite)

lemma increase_of_id:
  "increase_of s2n prev sk = Some y \<Longrightarrow> Number s2n (sk_id sk) = JFin (inc_id y)"
  by (cases "Number s2n (sk_id sk)") (auto simp: increase_of_def Let_def split: if_splits)

lemma set_map_filter: "set (List.map_filter g xs) = {y. \<exists>x \<in> set xs. g x = Some y}"
  by (induction xs) (auto simp: List.map_filter_simps split: option.splits)

lemma snapshot_increase_ids:
  "inc_id ` set (computeSketchIncreasesFromSnapshots s2n previous latest) \<subseteq> finite_ids s2n [latest]"
  by (auto simp: increases_from_snapshots set_js_sort set_map_filter finite_ids_def dest: increase_of_id)

lemma series_increase_ids:
  "inc_id ` set (computeLatestSketchIncreasesFromSeries lines) \<subseteq> s_id ` set lines"
  by (auto simp: increases_from_series set_js_sort series_increase_def)

subsection \<open>The two ways to the increases\<close>

lemma views_or_zero_idem: "views_or_zero (Some (views_or_zero x)) = views_or_zero x"
  by (cases x) (auto simp: views_or_zero_def js_or_def split: jsval.splits)

lemma views_or_zero_nat: "views_or_zero (Some (JFin v)) = JFin v"
  by (simp add: views_or_zero_def js_or_def)

lemma last_views_Some:
  "last_views s2n ss k = Some x \<Longrightarrow> \<exists>sk \<in> set ss. Number s2n (sk_id sk) = JFin k \<and> x = sketch_views s2n sk"
proof -
  assume a: "last_views s2n ss k = Some x"
  let ?f = "filter (\<lambda>sk. Number s2n (sk_id sk) = JFin k) ss"
  from a have ne: "?f \<noteq> []" and x: "x = sketch_views s2n (last ?f)"
    by (auto simp: last_views_def split: list.splits)
  from ne have "last ?f \<in> set ?f"
    by (rule last_in_set)
  with x show ?thesis
    by auto
qed

lemma last_views_Cons:
  "last_views s2n (a # ss) k =
     (case last_views s2n ss k of
        None \<Rightarrow> (if Number s2n (sk_id a) = JFin k then Some (sketch_views s2n a) else None)
      | Some v \<Rightarrow> Some v)"
  by (simp add: last_views_def split: list.splits)

lemma last_views_unique:
  assumes "distinct (map (\<lambda>sk. Number s2n (sk_id sk)) (filter (\<lambda>sk. isFinite (Number s2n (sk_id sk))) ss))"
    and "sk \<in> set ss" and "Number s2n (sk_id sk) = JFin k"
  shows "last_views s2n ss k = Some (sketch_views s2n sk)"
  using assms
proof (induction ss)
  case Nil
  then show ?case by simp
next
  case (Cons a ss)
  show ?case
  proof (cases "Number s2n (sk_id a) = JFin k")
    case True
    with Cons.prems(1) have notin: "JFin k \<notin> (\<lambda>sk. Number s2n (sk_id sk)) ` set (filter (\<lambda>sk. isFinite (Number s2n (sk_id sk))) ss)"
      by simp
    have other: "Number s2n (sk_id b) \<noteq> JFin k" if "b \<in> set ss" for b
    proof
      assume e: "Number s2n (sk_id b) = JFin k"
      then have "isFinite (Number s2n (sk_id b))"
        by simp
      with that have "b \<in> set (filter (\<lambda>sk. isFinite (Number s2n (sk_id sk))) ss)"
        by simp
      with e have "JFin k \<in> (\<lambda>sk. Number s2n (sk_id sk)) ` set (filter (\<lambda>sk. isFinite (Number s2n (sk_id sk))) ss)"
        by (metis image_eqI)
      with notin show False
        by contradiction
    qed
    then have "last_views s2n ss k = None"
      by (simp add: last_views_absent)
    moreover from Cons.prems(2,3) other have "sk = a"
      by auto
    ultimately show ?thesis
      using True by (simp add: last_views_Cons)
  next
    case False
    with Cons.prems have "sk \<in> set ss"
      and "distinct (map (\<lambda>sk. Number s2n (sk_id sk)) (filter (\<lambda>sk. isFinite (Number s2n (sk_id sk))) ss))"
      by (auto split: if_splits)
    with Cons.IH Cons.prems(3) have "last_views s2n ss k = Some (sketch_views s2n sk)"
      by simp
    then show ?thesis
      by (simp add: last_views_Cons)
  qed
qed

lemma map_of_previous_fold:
  "map_of (foldl (\<lambda>previousById sketch.
              (case Number s2n (sk_id sketch) of
                 JFin sketchId \<Rightarrow> map_set sketchId (sketch_views s2n sketch) previousById
               | _ \<Rightarrow> previousById)) m ss) k
   = (case last_views s2n ss k of None \<Rightarrow> map_of m k | Some v \<Rightarrow> Some v)"
proof (induction ss arbitrary: m)
  case Nil
  then show ?case by (simp add: last_views_def)
next
  case (Cons a ss)
  have step: "map_of (case Number s2n (sk_id a) of
                 JFin sketchId \<Rightarrow> map_set sketchId (sketch_views s2n a) m
               | _ \<Rightarrow> m) k
      = (if Number s2n (sk_id a) = JFin k then Some (sketch_views s2n a) else map_of m k)"
    by (cases "Number s2n (sk_id a)") (simp_all add: map_of_map_set)
  show ?case
    by (simp add: Cons.IH step last_views_Cons map_of_map_set split: option.splits)
qed

lemma map_of_previous_views: "map_of (previous_views s2n ss) k = last_views s2n ss k"
  unfolding previous_views_def map_of_previous_fold by (simp split: option.splits)


lemma series_delta_last_two:
  assumes c: "c \<in> set (candidates_of s2n nh)" and n: "2 \<le> length nh"
    and d: "distinct (index_map snapshotLabel nh)"
  shows "series_delta c =
     js_sub (views_or_zero (last_views s2n (opt_sketches (nh ! (length nh - 1))) (s_id c)))
            (views_or_zero (last_views s2n (opt_sketches (nh ! (length nh - 2))) (s_id c)))"
proof -
  have len: "length (points c) = length nh"
    by (rule candidate_points_length [OF c])
  from n have i1: "length nh - 1 < length nh" and i2: "length nh - 2 < length nh"
    by simp_all
  from n have n1: "nat (int (length nh) - 1) = length nh - 1" and n2: "nat (int (length nh) - 2) = length nh - 2"
    by simp_all
  have a1: "point_views_at (points c) (int (length (points c)) - 1) = Some (p_views (points c ! (length nh - 1)))"
    using n by (auto simp: point_views_at_def len n1)
  have a2: "point_views_at (points c) (int (length (points c)) - 2) = Some (p_views (points c ! (length nh - 2)))"
    using n by (auto simp: point_views_at_def len n2)
  have p1: "p_views (points c ! (length nh - 1)) = views_or_zero (last_views s2n (opt_sketches (nh ! (length nh - 1))) (s_id c))"
    by (rule candidate_point_views_distinct [OF c i1 d])
  have p2: "p_views (points c ! (length nh - 2)) = views_or_zero (last_views s2n (opt_sketches (nh ! (length nh - 2))) (s_id c))"
    by (rule candidate_point_views_distinct [OF c i2 d])
  show ?thesis
    unfolding series_delta_def a1 a2 p1 p2 views_or_zero_idem ..
qed

lemma increase_of_Some:
  assumes "increase_of s2n prev sk = Some y"
  shows "Number s2n (sk_id sk) = JFin (inc_id y)"
    and "delta y = js_sub (sketch_views s2n sk) (views_or_zero (map_of prev (inc_id y)))"
    and "js_gt (delta y) (JFin 0)"
  using assms
  by (cases "Number s2n (sk_id sk)"; auto simp: increase_of_def Let_def map_get_def split: if_splits)+

lemma increase_of_latest:
  assumes sk: "sk \<in> set (opt_sketches latest)" and k: "Number s2n (sk_id sk) = JFin k"
    and one: "one_record_per_id s2n latest" and cnt: "counted s2n latest"
  shows "sketch_views s2n sk = views_or_zero (last_views s2n (opt_sketches latest) k)"
    and "\<exists>v. 0 \<le> v \<and> sketch_views s2n sk = JFin v"
proof -
  from sk k have "sk \<in> set (finite_records s2n (opt_sketches latest))"
    by (simp add: finite_records_def)
  with cnt show v: "\<exists>v. 0 \<le> v \<and> sketch_views s2n sk = JFin v"
    by (auto simp: counted_def)
  from one have "last_views s2n (opt_sketches latest) k = Some (sketch_views s2n sk)"
    unfolding one_record_per_id_def finite_records_def by (rule last_views_unique [OF _ sk k])
  with v show "sketch_views s2n sk = views_or_zero (last_views s2n (opt_sketches latest) k)"
    by (auto simp: views_or_zero_nat)
qed

lemma views_or_zero_counted:
  assumes "counted s2n e"
  shows "\<exists>w. 0 \<le> w \<and> views_or_zero (last_views s2n (opt_sketches e) k) = JFin w"
proof (cases "last_views s2n (opt_sketches e) k")
  case None
  then show ?thesis by (simp add: views_or_zero_def)
next
  case (Some x)
  then obtain sk where "sk \<in> set (opt_sketches e)" "Number s2n (sk_id sk) = JFin k" "x = sketch_views s2n sk"
    by (auto dest: last_views_Some)
  moreover then have "sk \<in> set (finite_records s2n (opt_sketches e))"
    by (simp add: finite_records_def)
  ultimately obtain w where "0 \<le> w" "x = JFin w"
    using assms by (auto simp: counted_def)
  with Some show ?thesis
    by (auto simp: views_or_zero_nat)
qed


subsection \<open>Timestamps that do not parse, in options.js\<close>

lemma snapshotTime_unparsable:
  "dp (String (effective_text e)) = None \<Longrightarrow> snapshotTime dp e = JFin 0"
  by (simp add: snapshotTime_def Date_parse_def isNaN_def)

lemma normalized_sorted:
  "buildState dp s2n history = Inr st \<Longrightarrow> sorted (map (timestamp_ms dp) (normalizedHistory st))"
  by (auto dest!: buildState_cases)

section \<open>The examples, built\<close>

lemmas build_defs = buildState_def js_sort_def SortCompare_def snapshotTime_def snapshotLabel_def
  Date_parse_def effective_text_def opt_fetched_at_def opt_date_def opt_sketches_def js_or_def js_sub_def isNaN_def
  index_map_def add_sketch_def map_has_def map_get_def sketch_views_def map_from_pairs_def
  candidate_series_def make_series_def has_views_def views_or_zero_def epoch_iso_def Let_def

lemma built_day3_day1:
  "buildState example_Date_parse s2n [Some snap_day3, Some snap_day1] =
     Inr \<lparr> normalizedHistory = [Some snap_day1, Some snap_day3],
           timeLabels = [''2026-01-01T09:00:00.000+01:00'', ''2026-01-03T09:00:00.000+01:00''],
           series_of = series_day1_day3 \<rparr>"
  by (simp add: build_defs ex_defs series_day1_day3_def mk_point_def)


lemma built_good_ids:
  "buildState example_Date_parse s2n history_good_ids =
     Inr \<lparr> normalizedHistory = history_good_ids,
           timeLabels = [''2026-01-01T09:00:00.000+01:00'', ''2026-01-02T09:00:00.000+01:00''],
           series_of = series_zero \<rparr>"
  by (simp add: build_defs ex_defs history_good_ids_def series_zero_def mk_point_def)

lemma built_retitled:
  "buildState example_Date_parse s2n history_retitled =
     Inr \<lparr> normalizedHistory = history_retitled,
           timeLabels = [''2026-01-01T09:00:00.000+01:00'', ''2026-01-02T09:00:00.000+01:00''],
           series_of = series_retitled \<rparr>"
  by (simp add: build_defs ex_defs history_retitled_def snap_old_title_def snap_new_title_def
      series_retitled_def mk_point_def)

lemmas series_eval_defs = computeLatestSketchIncreasesFromSeries_def point_views_at_def views_or_zero_def
  js_or_def js_sub_def js_sort_def SortCompare_def Let_def mk_point_def

lemma series_increases_day1_day3:
  "computeLatestSketchIncreasesFromSeries series_day1_day3 =
     [\<lparr> inc_id = 3, inc_title = ''C'', inc_url = [], delta = JFin 3 \<rparr>,
      \<lparr> inc_id = 1, inc_title = ''A'', inc_url = [], delta = JFin 2 \<rparr>]"
  by (simp add: series_eval_defs series_day1_day3_def)

lemma series_increases_retitled:
  "computeLatestSketchIncreasesFromSeries series_retitled =
     [\<lparr> inc_id = 1, inc_title = ''Old title'', inc_url = [], delta = JFin 4 \<rparr>]"
  by (simp add: series_eval_defs series_retitled_def)

lemma snapshot_increases_retitled:
  "computeSketchIncreasesFromSnapshots s2n (Some snap_old_title) (Some snap_new_title) =
     [\<lparr> inc_id = 1, inc_title = ''New title'', inc_url = [], delta = JFin 4 \<rparr>]"
  by (simp add: eval_defs snap_old_title_def snap_new_title_def mk_snapshot_def mk_sketch_def)

section \<open>Histories as the merges leave them\<close>

text \<open>
  Merging snapshots whose \<open>fetched_at\<close> parses keeps the history sorted by timestamp and
  free of two entries with one \<open>fetched_at\<close>; nothing is lost but by replacement.
\<close>

lemma merge_all_history_ok: "\<forall>s \<in> set snaps. stamped dp s \<Longrightarrow> history_ok dp (merge_all dp snaps)"
  using merge_all_invariant by blast

lemma merge_all_sorted_distinct:
  assumes "\<forall>s \<in> set snaps. stamped dp s"
  shows "sorted (map (timestamp_ms dp) (merge_all dp snaps))
       \<and> distinct (map opt_fetched_at (merge_all dp snaps))
       \<and> set (merge_all dp snaps) = Some ` set (keep_last snaps)
       \<and> length (merge_all dp snaps) = length (keep_last snaps)
       \<and> opt_fetched_at ` set (merge_all dp snaps) = fetched_at ` set snaps"
proof -
  let ?h = "merge_all dp snaps"
  from merge_all_invariant [OF assms]
  have ok: "history_ok dp ?h" and st: "set ?h = Some ` set (keep_last snaps)"
    by simp_all
  from ok have srt: "sorted (map (timestamp_ms dp) ?h)" and dst: "distinct (map opt_fetched_at ?h)"
    by (simp_all add: history_ok_def)
  from dst have "distinct ?h"
    by (simp add: distinct_map)
  then have "length ?h = card (set ?h)"
    by (simp add: distinct_card)
  also have "\<dots> = card (set (keep_last snaps))"
    unfolding st by (simp add: card_image)
  also have "\<dots> = length (keep_last snaps)"
    using keep_last_distinct [of snaps] by (simp add: distinct_card distinct_map)
  finally have len: "length ?h = length (keep_last snaps)" .
  have "opt_fetched_at ` set ?h = fetched_at ` set (keep_last snaps)"
    unfolding st by (auto simp: opt_fetched_at_def image_iff)
  then have keys: "opt_fetched_at ` set ?h = fetched_at ` set snaps"
    by (simp add: keep_last_keys)
  from srt dst st len keys show ?thesis
    by simp
qed

lemma merge_all_sorted_distinct_example:
  "merge_all example_Date_parse [snap_day3, snap_day1, snap_day2, snap_day2_again]
     = [Some snap_day1, Some snap_day2_again, Some snap_day3]
   \<and> sorted (map (timestamp_ms example_Date_parse)
        (merge_all example_Date_parse [snap_day3, snap_day1, snap_day2, snap_day2_again]))
   \<and> distinct (map opt_fetched_at
        (merge_all example_Date_parse [snap_day3, snap_day1, snap_day2, snap_day2_again]))
   \<and> keep_last [snap_day3, snap_day1, snap_day2, snap_day2_again] = [snap_day3, snap_day1, snap_day2_again]"
proof -
  have h: "\<forall>s \<in> set [snap_day3, snap_day1, snap_day2, snap_day2_again]. stamped example_Date_parse s"
    by (simp add: ex_defs)
  have e: "merge_all example_Date_parse [snap_day3, snap_day1, snap_day2, snap_day2_again]
     = [Some snap_day1, Some snap_day2_again, Some snap_day3]"
    by (simp add: merge_all_def appendSnapshot_def appendSnapshot_compare_def js_sort_def SortCompare_def
        Date_parse_def effective_text_def opt_fetched_at_def opt_date_def js_or_def js_sub_def Let_def ex_defs)
  have k: "keep_last [snap_day3, snap_day1, snap_day2, snap_day2_again] = [snap_day3, snap_day1, snap_day2_again]"
    by (simp add: ex_defs)
  from merge_all_sorted_distinct [OF h] e k show ?thesis
    by simp
qed








section \<open>Totals of the examples\<close>

lemma views_or_zero_not_NaN: "x \<noteq> JNaN \<Longrightarrow> views_or_zero (Some x) = x"
  by (cases x) (auto simp: views_or_zero_def js_or_def)

lemma snapshot_totals_day1_day3:
  "snapshot_totals s2n [Some snap_day1, Some snap_day3] = [JFin 15, JFin 20]"
  "snapshot_totals s2n [Some snap_day3, Some snap_day1] = [JFin 20, JFin 15]"
  by (simp_all add: snapshot_totals_def opt_sketches_def sketch_views_def js_or_def ex_defs)

lemma snapshot_totals_100_150_150:
  "snapshot_totals s2n history_100_150_150 = [JFin 100, JFin 150, JFin 150]"
  by (simp add: snapshot_totals_def opt_sketches_def sketch_views_def js_or_def history_100_150_150_def
      mk_snapshot_def mk_sketch_def)

lemma series_totals_day1_day3:
  "series_totals series_day1_day3 2 = [JFin 15, JFin 20]"
  "series_totals series_day1_day3 (Suc (Suc 0)) = [JFin 15, JFin 20]"
  by (simp_all add: series_totals_def series_day1_day3_def mk_point_def point_views_at_def views_or_zero_def
      js_or_def upt_rec)

section \<open>Ids and deltas of the two computations of the increases\<close>

text \<open>
  Let \<open>buildState\<close> accept a history of two or more snapshots whose labels are pairwise
  distinct, and let the last two snapshots of the time-sorted history hold view counts
  that are non-negative integers, the last one with at most one record for an id. Then
  \<open>computeSketchIncreasesFromSnapshots\<close> on these two snapshots and
  \<open>computeLatestSketchIncreasesFromSeries\<close> on the built series list the same pairs of id
  and delta.
\<close>

lemma increases_paths_agree:
  assumes b: "buildState dp s2n history = Inr st"
    and n: "2 \<le> length history"
    and dl: "distinct (timeLabels st)"
    and one: "one_record_per_id s2n (normalizedHistory st ! (length history - 1))"
    and c1: "counted s2n (normalizedHistory st ! (length history - 1))"
    and c2: "counted s2n (normalizedHistory st ! (length history - 2))"
  shows "id_delta ` set (computeSketchIncreasesFromSnapshots s2n
                           (normalizedHistory st ! (length history - 2))
                           (normalizedHistory st ! (length history - 1)))
       = id_delta ` set (computeLatestSketchIncreasesFromSeries (series_of st))"
proof -
  let ?nh = "normalizedHistory st"
  let ?prev = "?nh ! (length history - 2)"
  let ?last = "?nh ! (length history - 1)"
  define D where "D k = js_sub (views_or_zero (last_views s2n (opt_sketches ?last) k))
                             (views_or_zero (last_views s2n (opt_sketches ?prev) k))" for k
  from buildState_cases [OF b]
  have nh: "?nh = sort_key (timestamp_ms dp) history"
    and tl: "timeLabels st = index_map snapshotLabel ?nh"
    by simp_all
  from nh have len: "length ?nh = length history"
    by simp
  from n len have n': "2 \<le> length ?nh"
    by simp
  from dl tl have dl': "distinct (index_map snapshotLabel ?nh)"
    by simp
  have last_in: "?last \<in> set ?nh"
    using n len by simp
  have series: "set (series_of st) = {c \<in> set (candidates_of s2n ?nh). has_views c}"
    by (rule set_series_of [OF b])
  have sd: "series_delta c = D (s_id c)" and pl: "2 \<le> length (points c)"
    if "c \<in> set (candidates_of s2n ?nh)" for c
    using series_delta_last_two [OF that n' dl'] candidate_points_length [OF that] n' len
    by (simp_all add: D_def)

  have left: "id_delta ` set (computeSketchIncreasesFromSnapshots s2n ?prev ?last)
      = {(k, D k) | k. (\<exists>sk \<in> set (opt_sketches ?last). Number s2n (sk_id sk) = JFin k) \<and> js_gt (D k) (JFin 0)}"
    (is "?L = ?M")
  proof (intro set_eqI iffI)
    fix x assume "x \<in> ?L"
    then obtain sk y where sk: "sk \<in> set (opt_sketches ?last)"
      and y: "increase_of s2n (previous_views s2n (opt_sketches ?prev)) sk = Some y" and x: "x = id_delta y"
      by (auto simp: increases_from_snapshots set_js_sort set_map_filter)
    from y have k: "Number s2n (sk_id sk) = JFin (inc_id y)"
      by (rule increase_of_id)
    from increase_of_Some(2,3) [OF y] have "delta y = js_sub (sketch_views s2n sk)
                       (views_or_zero (last_views s2n (opt_sketches ?prev) (inc_id y)))"
      and "js_gt (delta y) (JFin 0)"
      by (simp_all add: map_of_previous_views)
    with increase_of_latest(1) [OF sk k one c1] have "delta y = D (inc_id y)" "js_gt (D (inc_id y)) (JFin 0)"
      by (simp_all add: D_def)
    with sk k x show "x \<in> ?M"
      by (auto simp: id_delta_def)
  next
    fix x assume "x \<in> ?M"
    then obtain k sk where x: "x = (k, D k)" and sk: "sk \<in> set (opt_sketches ?last)"
      and k: "Number s2n (sk_id sk) = JFin k" and pos: "js_gt (D k) (JFin 0)"
      by auto
    let ?y = "\<lparr> inc_id = k,
                inc_title = String (js_or (sk_title sk) (JStr (''Sketch '' @ int_to_string k))),
                inc_url = String (js_or (sk_url sk) (JStr [])),
                delta = D k \<rparr>"
    from increase_of_latest(1) [OF sk k one c1] pos k
    have "increase_of s2n (previous_views s2n (opt_sketches ?prev)) sk = Some ?y"
      by (simp add: increase_of_def Let_def map_get_def map_of_previous_views D_def)
    with sk have "?y \<in> set (computeSketchIncreasesFromSnapshots s2n ?prev ?last)"
      by (auto simp: increases_from_snapshots set_js_sort set_map_filter)
    moreover have "id_delta ?y = x"
      by (simp add: id_delta_def x)
    ultimately show "x \<in> ?L"
      by (metis image_eqI)
  qed

  have right: "id_delta ` set (computeLatestSketchIncreasesFromSeries (series_of st))
      = {(s_id c, D (s_id c)) | c. c \<in> set (candidates_of s2n ?nh) \<and> has_views c \<and> js_gt (D (s_id c)) (JFin 0)}"
    (is "?R = ?S")
  proof (intro set_eqI iffI)
    fix x assume "x \<in> ?R"
    then obtain c where "c \<in> set (series_of st)" "js_gt (series_delta c) (JFin 0)" "x = id_delta (series_increase c)"
      by (auto simp: increases_from_series set_js_sort)
    with series sd show "x \<in> ?S"
      by (auto simp: id_delta_def series_increase_def)
  next
    fix x assume "x \<in> ?S"
    then obtain c where c: "c \<in> set (candidates_of s2n ?nh)" "has_views c" "js_gt (D (s_id c)) (JFin 0)"
      and x: "x = (s_id c, D (s_id c))"
      by auto
    from c series have "c \<in> set (series_of st)"
      by simp
    moreover from c sd pl have "2 \<le> length (points c) \<and> js_gt (series_delta c) (JFin 0)"
      by simp
    ultimately have "series_increase c \<in> set (computeLatestSketchIncreasesFromSeries (series_of st))"
      by (simp add: increases_from_series set_js_sort)
    moreover have "id_delta (series_increase c) = x"
      using sd [OF c(1)] by (simp add: id_delta_def series_increase_def x)
    ultimately show "x \<in> ?R"
      by (metis image_eqI)
  qed

  have present: "\<exists>sk \<in> set (opt_sketches ?last). Number s2n (sk_id sk) = JFin k" if "js_gt (D k) (JFin 0)" for k
  proof (rule ccontr)
    assume "\<not> (\<exists>sk \<in> set (opt_sketches ?last). Number s2n (sk_id sk) = JFin k)"
    then have "last_views s2n (opt_sketches ?last) k = None"
      by (simp add: last_views_absent)
    moreover obtain w where "0 \<le> w" "views_or_zero (last_views s2n (opt_sketches ?prev) k) = JFin w"
      using views_or_zero_counted [OF c2] by blast
    ultimately have "\<not> js_gt (D k) (JFin 0)"
      by (simp add: views_or_zero_def js_sub_def D_def)
    with that show False
      by contradiction
  qed

  have kept: "\<exists>c. c \<in> set (candidates_of s2n ?nh) \<and> has_views c \<and> s_id c = k"
    if sk: "sk \<in> set (opt_sketches ?last)" and k: "Number s2n (sk_id sk) = JFin k"
      and pos: "js_gt (D k) (JFin 0)" for sk k
  proof -
    from last_in sk k have "k \<in> finite_ids s2n ?nh"
      unfolding finite_ids_def by blast
    then obtain c where c: "c \<in> set (candidates_of s2n ?nh)" "s_id c = k"
      by (rule candidate_of_id)
    let ?i = "length ?nh - 1"
    from n' have i: "?i < length ?nh"
      by simp
    obtain v where v: "0 \<le> v" "views_or_zero (last_views s2n (opt_sketches ?last) k) = JFin v"
      using views_or_zero_counted [OF c1] by blast
    obtain w where w: "0 \<le> w" "views_or_zero (last_views s2n (opt_sketches ?prev) k) = JFin w"
      using views_or_zero_counted [OF c2] by blast
    from pos v w have "0 < v"
      by (simp add: js_sub_def D_def)
    moreover have "p_views (points c ! ?i) = JFin v"
      using candidate_point_views_distinct [OF c(1) i dl'] c(2) v(2) len by simp
    ultimately have "js_gt (p_views (points c ! ?i)) (JFin 0)"
      by simp
    moreover have "points c ! ?i \<in> set (points c)"
      using candidate_points_length [OF c(1)] i by simp
    ultimately have "has_views c"
      unfolding has_views_iff by blast
    with c show ?thesis
      by blast
  qed

  have "?M = ?S"
  proof (intro set_eqI iffI)
    fix x assume "x \<in> ?M"
    then obtain k sk where "x = (k, D k)" "sk \<in> set (opt_sketches ?last)"
      "Number s2n (sk_id sk) = JFin k" "js_gt (D k) (JFin 0)"
      by auto
    with kept show "x \<in> ?S"
      by blast
  next
    fix x assume "x \<in> ?S"
    then obtain c :: series where "x = (s_id c, D (s_id c))" "js_gt (D (s_id c)) (JFin 0)"
      by blast
    with present show "x \<in> ?M"
      by blast
  qed
  with left right show ?thesis
    by simp
qed

lemma increases_paths_agree_example:
  "\<forall>s2n. \<exists>st. buildState example_Date_parse s2n [Some snap_day3, Some snap_day1] = Inr st
        \<and> normalizedHistory st = [Some snap_day1, Some snap_day3]
        \<and> distinct (timeLabels st)
        \<and> one_record_per_id s2n (Some snap_day3)
        \<and> counted s2n (Some snap_day3) \<and> counted s2n (Some snap_day1)
        \<and> id_delta ` set (computeLatestSketchIncreasesFromSeries (series_of st)) = {(3, JFin 3), (1, JFin 2)}
        \<and> id_delta ` set (computeSketchIncreasesFromSnapshots s2n (Some snap_day1) (Some snap_day3))
            = {(3, JFin 3), (1, JFin 2)}"
proof
  fix s2n :: "string \<Rightarrow> jsnum"
  let ?h = "[Some snap_day3, Some snap_day1]"
  let ?st = "\<lparr> normalizedHistory = [Some snap_day1, Some snap_day3],
           timeLabels = [''2026-01-01T09:00:00.000+01:00'', ''2026-01-03T09:00:00.000+01:00''],
           series_of = series_day1_day3 \<rparr>"
  have b: "buildState example_Date_parse s2n ?h = Inr ?st"
    by (rule built_day3_day1)
  have n: "2 \<le> length ?h"
    by simp
  have dl: "distinct (timeLabels ?st)"
    by simp
  have i1: "normalizedHistory ?st ! (length ?h - 1) = Some snap_day3"
    and i2: "normalizedHistory ?st ! (length ?h - 2) = Some snap_day1"
    by simp_all
  have one: "one_record_per_id s2n (Some snap_day3)"
    by (simp add: one_record_per_id_def finite_records_def opt_sketches_def ex_defs)
  have c1: "counted s2n (Some snap_day3)" and c2: "counted s2n (Some snap_day1)"
    by (simp_all add: counted_def finite_records_def opt_sketches_def sketch_views_def js_or_def ex_defs)
  have s: "id_delta ` set (computeLatestSketchIncreasesFromSeries (series_of ?st)) = {(3, JFin 3), (1, JFin 2)}"
    by (simp add: series_increases_day1_day3 id_delta_def)
  from increases_paths_agree [OF b n dl] one c1 c2
  have "id_delta ` set (computeSketchIncreasesFromSnapshots s2n (Some snap_day1) (Some snap_day3))
      = id_delta ` set (computeLatestSketchIncreasesFromSeries (series_of ?st))"
    unfolding i1 i2 by blast
  with s have "id_delta ` set (computeSketchIncreasesFromSnapshots s2n (Some snap_day1) (Some snap_day3))
      = {(3, JFin 3), (1, JFin 2)}"
    by simp
  with b dl one c1 c2 s
  show "\<exists>st. buildState example_Date_parse s2n [Some snap_day3, Some snap_day1] = Inr st
        \<and> normalizedHistory st = [Some snap_day1, Some snap_day3]
        \<and> distinct (timeLabels st)
        \<and> one_record_per_id s2n (Some snap_day3)
        \<and> counted s2n (Some snap_day3) \<and> counted s2n (Some snap_day1)
        \<and> id_delta ` set (computeLatestSketchIncreasesFromSeries (series_of st)) = {(3, JFin 3), (1, JFin 2)}
        \<and> id_delta ` set (computeSketchIncreasesFromSnapshots s2n (Some snap_day1) (Some snap_day3))
            = {(3, JFin 3), (1, JFin 2)}"
    by (intro exI [of _ ?st]) simp
qed
section \<open>Replacing a capture with the same \<open>fetched_at\<close>\<close>

text \<open>
  C1. When some entry of the history has a \<open>fetched_at\<close> strictly equal to the new
  snapshot's, \<open>appendSnapshot\<close> writes the snapshot over the first such entry, at its
  position \<open>i\<close>: the length is unchanged, entry \<open>i\<close> is the new snapshot and every
  other entry is what it was. In a history without two equal \<open>fetched_at\<close> that entry
  is the only one with the snapshot's \<open>fetched_at\<close>.
\<close>

theorem appendSnapshot_replaces_duplicate:
  assumes "\<exists>entry \<in> set history. strict_eq (opt_fetched_at entry) (fetched_at snapshot)"
  shows "\<exists>i < length history.
           strict_eq (opt_fetched_at (history ! i)) (fetched_at snapshot)
         \<and> (\<forall>j < i. \<not> strict_eq (opt_fetched_at (history ! j)) (fetched_at snapshot))
         \<and> (distinct (map opt_fetched_at history) \<longrightarrow>
              (\<forall>j < length history. strict_eq (opt_fetched_at (history ! j)) (fetched_at snapshot) \<longrightarrow> j = i))
         \<and> appendSnapshot dp history snapshot = history[i := Some snapshot]
         \<and> length (appendSnapshot dp history snapshot) = length history
         \<and> appendSnapshot dp history snapshot ! i = Some snapshot
         \<and> (\<forall>j < length history. j \<noteq> i \<longrightarrow> appendSnapshot dp history snapshot ! j = history ! j)"
proof -
  let ?p = "\<lambda>entry. strict_eq (opt_fetched_at entry) (fetched_at snapshot)"
  let ?i = "nat (findIndex ?p history)"
  from assms have hit: "0 \<le> findIndex ?p history" and lt: "?i < length history"
    using findIndex_hit [of history ?p] by auto
  have first: "?p (history ! ?i)" "\<forall>j < ?i. \<not> ?p (history ! j)"
    using findIndex_found [OF hit] by simp_all
  have only: "j = ?i"
    if d: "distinct (map opt_fetched_at history)" and j: "j < length history" "?p (history ! j)" for j
  proof -
    from first(1) j(2) have "opt_fetched_at (history ! j) = opt_fetched_at (history ! ?i)"
      by (rule strict_eq_same [rotated])
    with j(1) lt have "map opt_fetched_at history ! j = map opt_fetched_at history ! ?i"
      by simp
    with j(1) lt show ?thesis
      using nth_eq_iff_index_eq [OF d, of j ?i] by simp
  qed
  have res: "appendSnapshot dp history snapshot = history[?i := Some snapshot]"
    using hit by (simp add: appendSnapshot_def Let_def)
  show ?thesis
  proof (intro exI [of _ ?i] conjI)
    show "?i < length history"
      by (rule lt)
    show "?p (history ! ?i)"
      by (rule first(1))
    show "\<forall>j < ?i. \<not> ?p (history ! j)"
      by (rule first(2))
    show "distinct (map opt_fetched_at history) \<longrightarrow>
            (\<forall>j < length history. ?p (history ! j) \<longrightarrow> j = ?i)"
      using only by blast
    show "appendSnapshot dp history snapshot = history[?i := Some snapshot]"
      by (rule res)
    show "length (appendSnapshot dp history snapshot) = length history"
      unfolding res by simp
    show "appendSnapshot dp history snapshot ! ?i = Some snapshot"
      unfolding res using lt by simp
    show "\<forall>j < length history. j \<noteq> ?i \<longrightarrow> appendSnapshot dp history snapshot ! j = history ! j"
      unfolding res by simp
  qed
qed

theorem appendSnapshot_replaces_duplicate_witness:
  "strict_eq (opt_fetched_at (Some snap_day2)) (fetched_at snap_day2_again)
   \<and> snap_day2_again \<noteq> snap_day2
   \<and> appendSnapshot example_Date_parse [Some snap_day1, Some snap_day2] snap_day2_again
       = [Some snap_day1, Some snap_day2_again]"
proof -
  let ?h = "[Some snap_day1, Some snap_day2]"
  have s: "strict_eq (opt_fetched_at (Some snap_day2)) (fetched_at snap_day2_again)"
    by (simp add: opt_fetched_at_def snap_day2_def snap_day2_again_def mk_snapshot_def)
  then have h: "\<exists>entry \<in> set ?h. strict_eq (opt_fetched_at entry) (fetched_at snap_day2_again)"
    by simp
  have d: "snap_day2_again \<noteq> snap_day2"
    by (simp add: snap_day2_def snap_day2_again_def mk_snapshot_def mk_sketch_def)
  have n: "\<not> strict_eq (opt_fetched_at (?h ! 0)) (fetched_at snap_day2_again)"
    by (simp add: opt_fetched_at_def snap_day1_def snap_day2_again_def mk_snapshot_def)
  from appendSnapshot_replaces_duplicate [OF h, of example_Date_parse]
  obtain i where i: "i < length ?h" "strict_eq (opt_fetched_at (?h ! i)) (fetched_at snap_day2_again)"
    and r: "appendSnapshot example_Date_parse ?h snap_day2_again = ?h[i := Some snap_day2_again]"
    by blast
  from i n have "i = 1"
    by (cases "i = 0") auto
  with r s d show ?thesis
    by simp
qed

section \<open>The order of the history\<close>

text \<open>
  C2. Merges of snapshots whose \<open>fetched_at\<close> parses leave the history sorted by timestamp
  and without two entries of one \<open>fetched_at\<close>, and lose nothing but by replacement
  (\<open>merge_all_sorted_distinct\<close>). The order is lost with a snapshot whose \<open>fetched_at\<close> is
  a text that does not parse. Its effective timestamp is the epoch, which puts it in
  front of every dated capture; but the comparator of \<open>appendSnapshot\<close> returns \<open>NaN\<close>
  for it, the sort takes that for a tie, and the snapshot stays where \<open>push\<close> put it.
  Merging the capture of 1 January 2026 and then such a snapshot into the empty history
  gives a history of timestamps 1767254400000, 0: nothing is dropped and no \<open>fetched_at\<close>
  occurs twice, but the history is not sorted.
\<close>

theorem merge_all_unparsable_unsorted:
  "fetched_at snap_unparsable = JStr ''not a timestamp''
   \<and> merge_all example_Date_parse [snap_day1, snap_unparsable] = [Some snap_day1, Some snap_unparsable]
   \<and> map (timestamp_ms example_Date_parse) (merge_all example_Date_parse [snap_day1, snap_unparsable])
       = [1767254400000, 0]
   \<and> \<not> sorted (map (timestamp_ms example_Date_parse)
          (merge_all example_Date_parse [snap_day1, snap_unparsable]))
   \<and> distinct (map opt_fetched_at (merge_all example_Date_parse [snap_day1, snap_unparsable]))"
proof -
  have f: "fetched_at snap_unparsable = JStr ''not a timestamp''"
    by (simp add: snap_unparsable_def mk_snapshot_def)
  have e: "merge_all example_Date_parse [snap_day1, snap_unparsable] = [Some snap_day1, Some snap_unparsable]"
    by (simp add: merge_all_def appendSnapshot_def appendSnapshot_compare_def js_sort_def SortCompare_def
        Date_parse_def effective_text_def opt_fetched_at_def opt_date_def js_or_def js_sub_def Let_def
        snap_unparsable_def ex_defs)
  have t: "map (timestamp_ms example_Date_parse) [Some snap_day1, Some snap_unparsable] = [1767254400000, 0]"
    by (simp add: timestamp_ms_def Date_parse_def effective_text_def opt_fetched_at_def opt_date_def
        js_or_def snap_unparsable_def ex_defs)
  have d: "distinct (map opt_fetched_at [Some snap_day1, Some snap_unparsable])"
    by (simp add: opt_fetched_at_def snap_unparsable_def ex_defs)
  from f e t d show ?thesis
    by simp
qed

section \<open>The summary line\<close>

text \<open>
  C7, as the code has it. \<open>latestDelta\<close> of \<open>drawStats\<close> is \<open>null\<close> for fewer than two
  totals and the last total minus the one before it otherwise; on integer totals that is
  their difference, negative when the total fell. \<open>drawStats\<close> shows "waiting for next
  capture" when it is \<open>null\<close>, that is with fewer than two snapshots, the delta when it is
  positive, and the outcome of the lookback otherwise. \<open>drawPopupStats\<close> shows "waiting
  for captures" for an empty history and "waiting for next capture" for a history of one
  snapshot; with two or more it computes the delta from the last two totals, each read
  as \<open>total || 0\<close>, which is their difference unless a total is \<open>NaN\<close>, and shows it when
  it is positive and the outcome of the lookback otherwise. No branch of either function
  raises.
\<close>

theorem latestDelta_null_or_difference:
  fixes lines :: "series list" and snapshots history :: "entry list" and s2n :: "string \<Rightarrow> jsnum"
  defines "totals \<equiv> series_totals lines (length snapshots)"
    and "ptotals \<equiv> snapshot_totals s2n history"
  defines "pd \<equiv> js_sub (views_or_zero (Some (last ptotals)))
                      (views_or_zero (Some (ptotals ! (length ptotals - 2))))"
  shows "latestDelta ts =
           (if length ts < 2 then None
            else Some (js_sub (ts ! (length ts - 1)) (ts ! (length ts - 2))))
       \<and> latestDelta (map JFin (ns @ [a, b])) = Some (JFin (b - a))
       \<and> summary_of (drawStats lines snapshots) =
           (case latestDelta totals of
              None \<Rightarrow> WaitingForNextCapture
            | Some d \<Rightarrow> if js_gt d (JFin 0) then NewViews d else lookback totals)
       \<and> (length snapshots < 2 \<longrightarrow>
            latestDelta totals = None \<and> summary_of (drawStats lines snapshots) = WaitingForNextCapture)
       \<and> (history = [] \<longrightarrow> summary_of (drawPopupStats s2n history) = WaitingForCaptures)
       \<and> (length history = 1 \<longrightarrow> summary_of (drawPopupStats s2n history) = WaitingForNextCapture)
       \<and> (2 \<le> length history \<longrightarrow>
            summary_of (drawPopupStats s2n history) =
              (if js_gt pd (JFin 0) then NewViews pd else lookback ptotals))
       \<and> (2 \<le> length history \<and> JNaN \<notin> set ptotals \<longrightarrow>
            pd = js_sub (ptotals ! (length ptotals - 1)) (ptotals ! (length ptotals - 2)))"
proof -
  have a: "latestDelta (map JFin (ns @ [a, b])) = Some (JFin (b - a))"
    by (simp add: latestDelta_eq nth_append js_sub_def)
  have b: "summary_of (drawStats lines snapshots) =
           (case latestDelta totals of
              None \<Rightarrow> WaitingForNextCapture
            | Some d \<Rightarrow> if js_gt d (JFin 0) then NewViews d else lookback totals)"
    unfolding totals_def by (rule drawStats_summary)
  have c: "latestDelta totals = None \<and> summary_of (drawStats lines snapshots) = WaitingForNextCapture"
    if "length snapshots < 2"
    using that by (simp add: b) (simp add: totals_def latestDelta_eq length_series_totals)
  have d: "summary_of (drawPopupStats s2n history) = WaitingForCaptures" if "history = []"
    using that by (simp add: drawPopupStats_summary Let_def)
  have e: "summary_of (drawPopupStats s2n history) = WaitingForNextCapture" if "length history = 1"
    using that by (auto simp: drawPopupStats_summary Let_def)
  have f: "summary_of (drawPopupStats s2n history) =
              (if js_gt pd (JFin 0) then NewViews pd else lookback ptotals)" if "2 \<le> length history"
    using that by (auto simp: drawPopupStats_summary Let_def ptotals_def pd_def)
  have g: "pd = js_sub (ptotals ! (length ptotals - 1)) (ptotals ! (length ptotals - 2))"
    if "2 \<le> length history" "JNaN \<notin> set ptotals"
  proof -
    from that(1) have len: "2 \<le> length ptotals"
      by (simp add: ptotals_def length_snapshot_totals)
    then have ne: "ptotals \<noteq> []"
      by auto
    from len have "ptotals ! (length ptotals - 1) \<in> set ptotals" "ptotals ! (length ptotals - 2) \<in> set ptotals"
      by simp_all
    with that(2) have "ptotals ! (length ptotals - 1) \<noteq> JNaN" "ptotals ! (length ptotals - 2) \<noteq> JNaN"
      by metis+
    then show ?thesis
      unfolding pd_def last_conv_nth [OF ne] by (simp add: views_or_zero_not_NaN)
  qed
  have h: "latestDelta ts =
           (if length ts < 2 then None
            else Some (js_sub (ts ! (length ts - 1)) (ts ! (length ts - 2))))"
    by (rule latestDelta_eq)
  from h a b c d e f g show ?thesis
    by blast
qed

theorem latestDelta_null_or_difference_witness:
  "\<forall>s2n. latestDelta [JFin 100] = None
        \<and> latestDelta [JFin 100, JFin 100, JFin 150] = Some (JFin 50)
        \<and> latestDelta [JFin 20, JFin 15] = Some (JFin (- 5))
        \<and> summary_of (drawStats series_day1_day3 [Some snap_day1]) = WaitingForNextCapture
        \<and> summary_of (drawStats series_day1_day3 [Some snap_day1, Some snap_day3]) = NewViews (JFin 5)
        \<and> summary_of (drawPopupStats s2n [Some snap_day1]) = WaitingForNextCapture
        \<and> summary_of (drawPopupStats s2n [Some snap_day1, Some snap_day3]) = NewViews (JFin 5)
        \<and> summary_of (drawPopupStats s2n [Some snap_day3, Some snap_day1]) = NoneObservedYet"
proof
  fix s2n :: "string \<Rightarrow> jsnum"
  note t = latestDelta_null_or_difference
  have "latestDelta [JFin 100] = None"
    using t [where ts = "[JFin 100]"] by simp
  moreover have "latestDelta [JFin 100, JFin 100, JFin 150] = Some (JFin 50)"
    using t [where ns = "[100]" and a = 100 and b = 150] by (simp add: js_sub_def)
  moreover have "latestDelta [JFin 20, JFin 15] = Some (JFin (- 5))"
    using t [where ns = "[]" and a = 20 and b = 15] by (simp add: js_sub_def)
  moreover have "summary_of (drawStats series_day1_day3 [Some snap_day1]) = WaitingForNextCapture"
    using t [where lines = series_day1_day3 and snapshots = "[Some snap_day1]"]
    by (simp add: latestDelta_eq length_series_totals)
  moreover have "summary_of (drawStats series_day1_day3 [Some snap_day1, Some snap_day3]) = NewViews (JFin 5)"
    using t [where lines = series_day1_day3 and snapshots = "[Some snap_day1, Some snap_day3]"]
    by (simp add: series_totals_day1_day3 latestDelta_eq js_sub_def)
  moreover have "summary_of (drawPopupStats s2n [Some snap_day1]) = WaitingForNextCapture"
    using t [where s2n = s2n and history = "[Some snap_day1]"] by simp
  moreover have "summary_of (drawPopupStats s2n [Some snap_day1, Some snap_day3]) = NewViews (JFin 5)"
    using t [where s2n = s2n and history = "[Some snap_day1, Some snap_day3]"]
    by (simp add: snapshot_totals_day1_day3 views_or_zero_nat js_sub_def)
  moreover have "summary_of (drawPopupStats s2n [Some snap_day3, Some snap_day1]) = NoneObservedYet"
    using t [where s2n = s2n and history = "[Some snap_day3, Some snap_day1]"]
    by (simp add: snapshot_totals_day1_day3 views_or_zero_nat js_sub_def lookback_def lastIncreaseIndex_def)
  ultimately show "latestDelta [JFin 100] = None
        \<and> latestDelta [JFin 100, JFin 100, JFin 150] = Some (JFin 50)
        \<and> latestDelta [JFin 20, JFin 15] = Some (JFin (- 5))
        \<and> summary_of (drawStats series_day1_day3 [Some snap_day1]) = WaitingForNextCapture
        \<and> summary_of (drawStats series_day1_day3 [Some snap_day1, Some snap_day3]) = NewViews (JFin 5)
        \<and> summary_of (drawPopupStats s2n [Some snap_day1]) = WaitingForNextCapture
        \<and> summary_of (drawPopupStats s2n [Some snap_day1, Some snap_day3]) = NewViews (JFin 5)
        \<and> summary_of (drawPopupStats s2n [Some snap_day3, Some snap_day1]) = NoneObservedYet"
    by simp
qed

text \<open>
  C7 as stated has "waiting for next capture" whenever fewer than two snapshots exist.
  For the empty history \<open>drawPopupStats\<close> returns before it computes a total, with the
  line "waiting for captures".
\<close>

theorem popup_empty_history_counterexample:
  "\<forall>s2n. summary_of (drawPopupStats s2n []) = WaitingForCaptures
        \<and> summary_of (drawPopupStats s2n []) \<noteq> WaitingForNextCapture"
  by (simp add: drawPopupStats_def)

text \<open>
  C6, as the code has it. With two or more snapshots, when the latest delta is not
  positive, the line names the latest index \<open>i\<close> with \<open>totals[i] > totals[i-1]\<close> and that
  increase, or is "none observed yet" when no adjacent pair increases. Both files do so,
  options.js on the totals of the series and popup.js on the totals of the stored
  snapshots. For the totals 100, 150, 150 the line names index 1 and the increase 50.
  With fewer than two snapshots no scan is made and the line is a waiting message:
  "waiting for next capture" in \<open>drawStats\<close>, and in \<open>drawPopupStats\<close> for one snapshot,
  "waiting for captures" in \<open>drawPopupStats\<close> for none.
\<close>

theorem lookback_reports_last_increase:
  fixes lines :: "series list" and snapshots history :: "entry list" and s2n :: "string \<Rightarrow> jsnum"
  defines "totals \<equiv> series_totals lines (length snapshots)"
    and "ptotals \<equiv> snapshot_totals s2n history"
  shows "(length snapshots < 2 \<longrightarrow> summary_of (drawStats lines snapshots) = WaitingForNextCapture)
       \<and> (2 \<le> length snapshots \<longrightarrow>
            (\<exists>d. latestDelta totals = Some d
               \<and> (\<not> js_gt d (JFin 0) \<longrightarrow>
                    (no_increase totals \<longrightarrow> summary_of (drawStats lines snapshots) = NoneObservedYet)
                  \<and> (\<forall>i. is_last_increase totals i \<longrightarrow>
                        summary_of (drawStats lines snapshots) =
                          NoneSince i (js_sub (totals ! i) (totals ! (i - 1)))))))
       \<and> (history = [] \<longrightarrow> summary_of (drawPopupStats s2n history) = WaitingForCaptures)
       \<and> (length history = 1 \<longrightarrow> summary_of (drawPopupStats s2n history) = WaitingForNextCapture)
       \<and> (2 \<le> length history
            \<and> \<not> js_gt (js_sub (views_or_zero (Some (last ptotals)))
                              (views_or_zero (Some (ptotals ! (length ptotals - 2))))) (JFin 0) \<longrightarrow>
            (no_increase ptotals \<longrightarrow> summary_of (drawPopupStats s2n history) = NoneObservedYet)
          \<and> (\<forall>i. is_last_increase ptotals i \<longrightarrow>
                summary_of (drawPopupStats s2n history) =
                  NoneSince i (js_sub (ptotals ! i) (ptotals ! (i - 1)))))"
proof -
  have a: "summary_of (drawStats lines snapshots) = WaitingForNextCapture" if "length snapshots < 2"
    using that by (simp add: drawStats_summary latestDelta_eq length_series_totals)
  have b: "\<exists>d. latestDelta totals = Some d
               \<and> (\<not> js_gt d (JFin 0) \<longrightarrow>
                    (no_increase totals \<longrightarrow> summary_of (drawStats lines snapshots) = NoneObservedYet)
                  \<and> (\<forall>i. is_last_increase totals i \<longrightarrow>
                        summary_of (drawStats lines snapshots) =
                          NoneSince i (js_sub (totals ! i) (totals ! (i - 1)))))"
    if "2 \<le> length snapshots"
  proof -
    from that have "\<not> length totals < 2"
      by (simp add: totals_def length_series_totals)
    then obtain d where d: "latestDelta totals = Some d"
      by (simp add: latestDelta_eq)
    have "summary_of (drawStats lines snapshots) = lookback totals" if "\<not> js_gt d (JFin 0)"
      using that d by (simp add: drawStats_summary totals_def)
    with d show ?thesis
      by (auto simp: lookback_none lookback_some)
  qed
  have c: "summary_of (drawPopupStats s2n history) = WaitingForNextCapture" if "length history = 1"
    using that by (auto simp: drawPopupStats_summary Let_def)
  have d: "summary_of (drawPopupStats s2n history) = lookback ptotals"
    if "2 \<le> length history"
      "\<not> js_gt (js_sub (views_or_zero (Some (last ptotals)))
                       (views_or_zero (Some (ptotals ! (length ptotals - 2))))) (JFin 0)"
    using that by (auto simp: drawPopupStats_summary Let_def ptotals_def)
  have e: "summary_of (drawPopupStats s2n history) = WaitingForCaptures" if "history = []"
    using that by (simp add: drawPopupStats_summary Let_def)
  have f: "(no_increase ptotals \<longrightarrow> summary_of (drawPopupStats s2n history) = NoneObservedYet)
          \<and> (\<forall>i. is_last_increase ptotals i \<longrightarrow>
                summary_of (drawPopupStats s2n history) =
                  NoneSince i (js_sub (ptotals ! i) (ptotals ! (i - 1))))"
    if "2 \<le> length history"
      "\<not> js_gt (js_sub (views_or_zero (Some (last ptotals)))
                       (views_or_zero (Some (ptotals ! (length ptotals - 2))))) (JFin 0)"
    using d [OF that] by (simp add: lookback_none lookback_some)
  from a b c e f show ?thesis
    by blast
qed

theorem lookback_reports_last_increase_witness:
  "\<forall>s2n. 2 \<le> length history_100_150_150
        \<and> series_totals series_100_150_150 (length history_100_150_150) = [JFin 100, JFin 150, JFin 150]
        \<and> snapshot_totals s2n history_100_150_150 = [JFin 100, JFin 150, JFin 150]
        \<and> latestDelta [JFin 100, JFin 150, JFin 150] = Some (JFin 0)
        \<and> is_last_increase [JFin 100, JFin 150, JFin 150] 1
        \<and> summary_of (drawStats series_100_150_150 history_100_150_150) = NoneSince 1 (JFin 50)
        \<and> summary_of (drawPopupStats s2n history_100_150_150) = NoneSince 1 (JFin 50)
        \<and> no_increase [JFin 20, JFin 15]
        \<and> summary_of (drawPopupStats s2n [Some snap_day3, Some snap_day1]) = NoneObservedYet"
proof
  fix s2n :: "string \<Rightarrow> jsnum"
  note t = lookback_reports_last_increase
  have h: "2 \<le> length history_100_150_150"
    by (simp add: history_100_150_150_def)
  have d: "latestDelta [JFin 100, JFin 150, JFin 150] = Some (JFin 0)"
    by (simp add: latestDelta_def js_sub_def)
  have l: "is_last_increase [JFin 100, JFin 150, JFin 150] 1"
    by (simp add: is_last_increase_def upt_rec)
  have n: "no_increase [JFin 20, JFin 15]"
    by (simp add: no_increase_def upt_rec)
  have p: "\<not> js_gt (js_sub (views_or_zero (Some (last [JFin 100, JFin 150, JFin 150])))
                       (views_or_zero (Some ([JFin 100, JFin 150, JFin 150] ! (length [JFin 100, JFin 150, JFin 150] - 2)))))
                (JFin 0)"
    by (simp add: views_or_zero_nat js_sub_def)
  have q: "\<not> js_gt (js_sub (views_or_zero (Some (last [JFin 20, JFin 15])))
                       (views_or_zero (Some ([JFin 20, JFin 15] ! (length [JFin 20, JFin 15] - 2)))))
                (JFin 0)"
    by (simp add: views_or_zero_nat js_sub_def)
  have s1: "summary_of (drawStats series_100_150_150 history_100_150_150) = NoneSince 1 (JFin 50)"
    using t [where lines = series_100_150_150 and snapshots = history_100_150_150] d l h
    unfolding totals_100_150_150 by (auto simp: js_sub_def)
  have s2: "summary_of (drawPopupStats s2n history_100_150_150) = NoneSince 1 (JFin 50)"
    using t [where s2n = s2n and history = history_100_150_150] l h p
    unfolding snapshot_totals_100_150_150 by (auto simp: js_sub_def)
  have s3: "summary_of (drawPopupStats s2n [Some snap_day3, Some snap_day1]) = NoneObservedYet"
    using t [where s2n = s2n and history = "[Some snap_day3, Some snap_day1]"] n q
    unfolding snapshot_totals_day1_day3 by auto
  from h d l n s1 s2 s3
  show "2 \<le> length history_100_150_150
        \<and> series_totals series_100_150_150 (length history_100_150_150) = [JFin 100, JFin 150, JFin 150]
        \<and> snapshot_totals s2n history_100_150_150 = [JFin 100, JFin 150, JFin 150]
        \<and> latestDelta [JFin 100, JFin 150, JFin 150] = Some (JFin 0)
        \<and> is_last_increase [JFin 100, JFin 150, JFin 150] 1
        \<and> summary_of (drawStats series_100_150_150 history_100_150_150) = NoneSince 1 (JFin 50)
        \<and> summary_of (drawPopupStats s2n history_100_150_150) = NoneSince 1 (JFin 50)
        \<and> no_increase [JFin 20, JFin 15]
        \<and> summary_of (drawPopupStats s2n [Some snap_day3, Some snap_day1]) = NoneObservedYet"
    by (simp add: totals_100_150_150 snapshot_totals_100_150_150)
qed

text \<open>
  C6 as stated counts the case without comparison among those that end in "none observed
  yet". With a single capture there is no adjacent pair, and both files show "waiting for
  next capture" instead.
\<close>

theorem lookback_single_capture_counterexample:
  "\<forall>s2n. no_increase (snapshot_totals s2n [Some snap_day1])
        \<and> summary_of (drawPopupStats s2n [Some snap_day1]) = WaitingForNextCapture
        \<and> summary_of (drawPopupStats s2n [Some snap_day1]) \<noteq> NoneObservedYet
        \<and> (case buildState example_Date_parse s2n [Some snap_day1] of
             Inl e \<Rightarrow> False
           | Inr st \<Rightarrow> no_increase (series_totals (series_of st) (length (normalizedHistory st)))
                     \<and> summary_of (drawStats (series_of st) (normalizedHistory st)) = WaitingForNextCapture)"
  by (simp add: no_increase_def drawStats_summary drawPopupStats_summary latestDelta_eq length_series_totals
      length_snapshot_totals buildState_def js_sort_def Let_def)


section \<open>Increases between two snapshots\<close>

text \<open>
  C9, as the code has it. From the previous snapshot A:10, B:5 to the latest A:12, B:5,
  C:3 the increases are C by 3 and A by 2, in this order: B, unchanged, is left out, and
  C, absent before, counts from 0.
\<close>

theorem increases_day1_day3:
  "computeSketchIncreasesFromSnapshots s2n (Some snap_day1) (Some snap_day3) =
     [\<lparr> inc_id = 3, inc_title = ''C'', inc_url = [], delta = JFin 3 \<rparr>,
      \<lparr> inc_id = 1, inc_title = ''A'', inc_url = [], delta = JFin 2 \<rparr>]"
  by (simp add: eval_defs ex_defs)

text \<open>C9 as stated gives A alone.\<close>

theorem increases_day1_day3_counterexample:
  "\<forall>s2n. computeSketchIncreasesFromSnapshots s2n (Some snap_day1) (Some snap_day3) \<noteq>
     [\<lparr> inc_id = 1, inc_title = ''A'', inc_url = [], delta = JFin 2 \<rparr>]"
  by (simp add: eval_defs ex_defs)

section \<open>The series\<close>





section \<open>Records without a finite id\<close>

text \<open>
  C10. A record whose id does not coerce to a finite number leaves no trace: the labels
  and series \<open>buildState\<close> builds, and the increases \<open>computeSketchIncreasesFromSnapshots\<close>
  lists, are those of the history without such records. \<open>buildState\<close> raises nothing on
  a history whose entries are objects, whatever the ids. The id of every series and of
  every increase is the finite number that the id of some record coerces to (for the
  increases of \<open>computeLatestSketchIncreasesFromSeries\<close>, the id of a series).
\<close>

theorem non_finite_ids_skipped:
  "map_sum id (\<lambda>st. (timeLabels st, series_of st)) (buildState dp s2n history)
     = map_sum id (\<lambda>st. (timeLabels st, series_of st)) (buildState dp s2n (map (without_bad_ids s2n) history))
   \<and> (None \<notin> set history \<longrightarrow> (\<exists>st. buildState dp s2n history = Inr st))
   \<and> (\<forall>st. buildState dp s2n history = Inr st \<longrightarrow> s_id ` set (series_of st) \<subseteq> finite_ids s2n history)
   \<and> computeSketchIncreasesFromSnapshots s2n previous latest
     = computeSketchIncreasesFromSnapshots s2n (without_bad_ids s2n previous) (without_bad_ids s2n latest)
   \<and> inc_id ` set (computeSketchIncreasesFromSnapshots s2n previous latest) \<subseteq> finite_ids s2n [latest]
   \<and> inc_id ` set (computeLatestSketchIncreasesFromSeries lines) \<subseteq> s_id ` set lines"
proof -
  have "s_id ` set (series_of st) \<subseteq> finite_ids s2n history" if b: "buildState dp s2n history = Inr st" for st
  proof -
    from buildState_cases [OF b] have "normalizedHistory st = sort_key (timestamp_ms dp) history"
      by simp
    then have "s_id ` set (candidates_of s2n (normalizedHistory st)) = finite_ids s2n history"
      by (simp add: candidate_ids finite_ids_sort)
    with set_series_of [OF b] show ?thesis
      by auto
  qed
  moreover have "\<exists>st. buildState dp s2n history = Inr st" if "None \<notin> set history"
    using buildState_Inr [OF that] by blast
  ultimately show ?thesis
    by (simp add: buildState_without_bad_ids increases_without_bad_ids snapshot_increase_ids series_increase_ids)
qed

theorem non_finite_ids_skipped_witness:
  "\<forall>s2n. map (without_bad_ids s2n) history_bad_ids = history_good_ids
        \<and> map_sum id (\<lambda>st. (timeLabels st, series_of st)) (buildState example_Date_parse s2n history_bad_ids)
          = Inr ([''2026-01-01T09:00:00.000+01:00'', ''2026-01-02T09:00:00.000+01:00''], series_zero)
        \<and> computeSketchIncreasesFromSnapshots s2n (history_bad_ids ! 0) (history_bad_ids ! 1)
          = [\<lparr> inc_id = 1, inc_title = ''A'', inc_url = [], delta = JFin 2 \<rparr>]"
proof
  fix s2n :: "string \<Rightarrow> jsnum"
  have c: "map (without_bad_ids s2n) history_bad_ids = history_good_ids"
    by (simp add: history_bad_ids_def history_good_ids_def without_bad_ids_def finite_records_def
        mk_snapshot_def mk_sketch_def)
  have n: "None \<notin> set history_bad_ids"
    by (simp add: history_bad_ids_def)
  have g: "computeSketchIncreasesFromSnapshots s2n (history_good_ids ! 0) (history_good_ids ! 1)
          = [\<lparr> inc_id = 1, inc_title = ''A'', inc_url = [], delta = JFin 2 \<rparr>]"
    by (simp add: eval_defs history_good_ids_def mk_snapshot_def mk_sketch_def)
  have w: "without_bad_ids s2n (history_bad_ids ! 0) = history_good_ids ! 0"
    "without_bad_ids s2n (history_bad_ids ! 1) = history_good_ids ! 1"
    by (simp_all add: history_bad_ids_def history_good_ids_def without_bad_ids_def finite_records_def
        mk_snapshot_def mk_sketch_def)
  from non_finite_ids_skipped [of example_Date_parse s2n history_bad_ids "history_bad_ids ! 0" "history_bad_ids ! 1"]
  have "map_sum id (\<lambda>st. (timeLabels st, series_of st)) (buildState example_Date_parse s2n history_bad_ids)
          = Inr ([''2026-01-01T09:00:00.000+01:00'', ''2026-01-02T09:00:00.000+01:00''], series_zero)"
    and "computeSketchIncreasesFromSnapshots s2n (history_bad_ids ! 0) (history_bad_ids ! 1)
          = [\<lparr> inc_id = 1, inc_title = ''A'', inc_url = [], delta = JFin 2 \<rparr>]"
    unfolding c w g by (simp_all add: built_good_ids)
  with c show "map (without_bad_ids s2n) history_bad_ids = history_good_ids
        \<and> map_sum id (\<lambda>st. (timeLabels st, series_of st)) (buildState example_Date_parse s2n history_bad_ids)
          = Inr ([''2026-01-01T09:00:00.000+01:00'', ''2026-01-02T09:00:00.000+01:00''], series_zero)
        \<and> computeSketchIncreasesFromSnapshots s2n (history_bad_ids ! 0) (history_bad_ids ! 1)
          = [\<lparr> inc_id = 1, inc_title = ''A'', inc_url = [], delta = JFin 2 \<rparr>]"
    by simp
qed

section \<open>The two computations of the increases\<close>

text \<open>
  C3. The two computations list the same ids and deltas (\<open>increases_paths_agree\<close>), but
  not the same titles. \<open>computeSketchIncreasesFromSnapshots\<close> takes title and url from the
  record of the latest snapshot. \<open>computeLatestSketchIncreasesFromSeries\<close> takes them from
  the series, and \<open>buildState\<close> sets those only when it meets the id for the first time,
  so a series keeps the title of the oldest snapshot that holds the sketch and not the
  one seen most recently. For a history of two captures, sorted, with distinct
  \<open>fetched_at\<close> that parse, between which sketch 1 was retitled, the first computation
  lists ''New title'' and the second ''Old title'': the result sets differ.
\<close>

theorem increases_paths_differ_on_title:
  "\<forall>s2n. stamped example_Date_parse snap_old_title \<and> stamped example_Date_parse snap_new_title
        \<and> map (timestamp_ms example_Date_parse) [Some snap_old_title, Some snap_new_title]
            = [1767254400000, 1767340800000]
        \<and> (\<exists>st. buildState example_Date_parse s2n [Some snap_old_title, Some snap_new_title] = Inr st
              \<and> normalizedHistory st = [Some snap_old_title, Some snap_new_title]
              \<and> computeSketchIncreasesFromSnapshots s2n (Some snap_old_title) (Some snap_new_title)
                  = [\<lparr> inc_id = 1, inc_title = ''New title'', inc_url = [], delta = JFin 4 \<rparr>]
              \<and> computeLatestSketchIncreasesFromSeries (series_of st)
                  = [\<lparr> inc_id = 1, inc_title = ''Old title'', inc_url = [], delta = JFin 4 \<rparr>]
              \<and> set (computeSketchIncreasesFromSnapshots s2n (Some snap_old_title) (Some snap_new_title))
                  \<noteq> set (computeLatestSketchIncreasesFromSeries (series_of st)))"
proof
  fix s2n :: "string \<Rightarrow> jsnum"
  have s: "stamped example_Date_parse snap_old_title" "stamped example_Date_parse snap_new_title"
    by (simp_all add: snap_old_title_def snap_new_title_def ex_defs)
  have t: "map (timestamp_ms example_Date_parse) [Some snap_old_title, Some snap_new_title]
            = [1767254400000, 1767340800000]"
    by (simp add: timestamp_ms_def Date_parse_def effective_text_def opt_fetched_at_def opt_date_def
        js_or_def snap_old_title_def snap_new_title_def ex_defs)
  have e: "\<exists>st. buildState example_Date_parse s2n [Some snap_old_title, Some snap_new_title] = Inr st
              \<and> normalizedHistory st = [Some snap_old_title, Some snap_new_title]
              \<and> computeSketchIncreasesFromSnapshots s2n (Some snap_old_title) (Some snap_new_title)
                  = [\<lparr> inc_id = 1, inc_title = ''New title'', inc_url = [], delta = JFin 4 \<rparr>]
              \<and> computeLatestSketchIncreasesFromSeries (series_of st)
                  = [\<lparr> inc_id = 1, inc_title = ''Old title'', inc_url = [], delta = JFin 4 \<rparr>]
              \<and> set (computeSketchIncreasesFromSnapshots s2n (Some snap_old_title) (Some snap_new_title))
                  \<noteq> set (computeLatestSketchIncreasesFromSeries (series_of st))"
    using built_retitled [of s2n]
    by (simp add: history_retitled_def snapshot_increases_retitled series_increases_retitled)
  from s t e
  show "stamped example_Date_parse snap_old_title \<and> stamped example_Date_parse snap_new_title
        \<and> map (timestamp_ms example_Date_parse) [Some snap_old_title, Some snap_new_title]
            = [1767254400000, 1767340800000]
        \<and> (\<exists>st. buildState example_Date_parse s2n [Some snap_old_title, Some snap_new_title] = Inr st
              \<and> normalizedHistory st = [Some snap_old_title, Some snap_new_title]
              \<and> computeSketchIncreasesFromSnapshots s2n (Some snap_old_title) (Some snap_new_title)
                  = [\<lparr> inc_id = 1, inc_title = ''New title'', inc_url = [], delta = JFin 4 \<rparr>]
              \<and> computeLatestSketchIncreasesFromSeries (series_of st)
                  = [\<lparr> inc_id = 1, inc_title = ''Old title'', inc_url = [], delta = JFin 4 \<rparr>]
              \<and> set (computeSketchIncreasesFromSnapshots s2n (Some snap_old_title) (Some snap_new_title))
                  \<noteq> set (computeLatestSketchIncreasesFromSeries (series_of st)))"
    by blast
qed

section \<open>Timestamps that do not parse\<close>

text \<open>
  C8. \<open>snapshotTime\<close> of options.js gives 0 for an entry whose timestamp does not parse
  (\<open>snapshotTime_unparsable\<close>), and \<open>buildState\<close> sorts by it
  (\<open>normalized_sorted\<close>). The comparator of \<open>appendSnapshot\<close> in popup.js has no such
  case: for such an entry it returns \<open>NaN\<close>, which the sort takes for a tie, so the entry
  stays where \<open>push\<close> put it. Nothing is raised, but the entry is not sorted as the
  epoch: merged into a history that holds the capture of 1 January 2026, it ends behind that
  capture, where the sort of options.js puts it in front.
\<close>

theorem appendSnapshot_unparsable_stays_last:
  "appendSnapshot_compare example_Date_parse (Some snap_unparsable) (Some snap_day1) = JNaN
   \<and> appendSnapshot example_Date_parse [Some snap_day1] snap_unparsable = [Some snap_day1, Some snap_unparsable]
   \<and> snapshotTime example_Date_parse (Some snap_unparsable) = JFin 0
   \<and> snapshotTime example_Date_parse (Some snap_day1) = JFin 1767254400000
   \<and> \<not> sorted (map (timestamp_ms example_Date_parse)
          (appendSnapshot example_Date_parse [Some snap_day1] snap_unparsable))
   \<and> js_sort (\<lambda>a b. js_sub (snapshotTime example_Date_parse a) (snapshotTime example_Date_parse b))
          [Some snap_day1, Some snap_unparsable] = [Some snap_unparsable, Some snap_day1]"
proof -
  have c: "appendSnapshot_compare example_Date_parse (Some snap_unparsable) (Some snap_day1) = JNaN"
    by (simp add: appendSnapshot_compare_def Date_parse_def effective_text_def opt_fetched_at_def opt_date_def
        js_or_def js_sub_def Let_def snap_unparsable_def ex_defs)
  have a: "appendSnapshot example_Date_parse [Some snap_day1] snap_unparsable = [Some snap_day1, Some snap_unparsable]"
    by (simp add: appendSnapshot_def appendSnapshot_compare_def js_sort_def SortCompare_def
        Date_parse_def effective_text_def opt_fetched_at_def opt_date_def js_or_def js_sub_def Let_def
        snap_unparsable_def ex_defs)
  have t: "snapshotTime example_Date_parse (Some snap_unparsable) = JFin 0"
    "snapshotTime example_Date_parse (Some snap_day1) = JFin 1767254400000"
    by (simp_all add: snapshotTime_def Date_parse_def effective_text_def opt_fetched_at_def opt_date_def
        js_or_def isNaN_def snap_unparsable_def ex_defs)
  have s: "\<not> sorted (map (timestamp_ms example_Date_parse) [Some snap_day1, Some snap_unparsable])"
    by (simp add: timestamp_ms_def Date_parse_def effective_text_def opt_fetched_at_def opt_date_def
        js_or_def snap_unparsable_def ex_defs)
  have n: "js_sort (\<lambda>a b. js_sub (snapshotTime example_Date_parse a) (snapshotTime example_Date_parse b))
          [Some snap_day1, Some snap_unparsable] = [Some snap_unparsable, Some snap_day1]"
    by (simp add: js_sort_def SortCompare_def t js_sub_def)
  from c a t s n show ?thesis
    by simp
qed

end
